theory Spec2Isabelle
  imports Main "HOL-Library.Word" "HOL-Library.Signed_Division"
begin

unbundle bit_operations_syntax

section \<open>Errors and JavaScript BigInt arithmetic\<close>

text \<open>
  The three algorithm classes (\<^verbatim>\<open>RSAEncryption\<close>, \<^verbatim>\<open>ElGamalEncryption\<close>,
  \<^verbatim>\<open>ECCEncryption\<close>) compute on JavaScript \<^verbatim>\<open>bigint\<close> values, modelled as \<^typ>\<open>int\<close>.
  On \<^verbatim>\<open>bigint\<close> the operators \<^verbatim>\<open>/\<close> and \<^verbatim>\<open>%\<close> truncate towards zero (the remainder takes
  the sign of the dividend): they are \<open>sdiv\<close> and \<open>smod\<close>, not HOL's flooring \<open>div\<close> and
  \<open>mod\<close>. Both throw a \<^verbatim>\<open>RangeError\<close> on a zero divisor, which every model below checks
  before it divides. \<^verbatim>\<open>x >> 1n\<close> is the arithmetic shift \<open>drop_bit 1 x\<close>.

  Every \<^verbatim>\<open>throw\<close> of the source is a constructor of \<open>error\<close>.
\<close>

datatype error =
    RangeError                  \<comment> \<open>BigInt division by zero, typed-array bounds\<close>
  | ReferenceError              \<comment> \<open>use of an undefined global such as TextEncoder\<close>
  | NoModInverse int int int    \<comment> \<open>modInverse: no inverse exists, GCD(a, m) = old_r\<close>
  | NotQuadraticResidue int int \<comment> \<open>modSqrt: n is not a quadratic residue of p\<close>
  | CannotComputeSqrt           \<comment> \<open>modSqrt: the refinement loop did not converge\<close>
  | MessageTooLong              \<comment> \<open>RSA encrypt and oaep_encode: message too long\<close>
  | EncodedMessageTooShort      \<comment> \<open>oaep_decode: k < 2 hLen + 2\<close>
  | EncodedMessageMalformed     \<comment> \<open>oaep_decode: leading byte is not 0x00\<close>
  | LabelHashMismatch           \<comment> \<open>oaep_decode: lHash segment differs\<close>
  | SeparatorNotFound           \<comment> \<open>oaep_decode: no 0x01 separator\<close>
  | InvalidKeyFormat            \<comment> \<open>key string cannot be parsed\<close>
  | RSAEncryptFailed            \<comment> \<open>the error RSA encrypt re-throws from its catch block\<close>
  | RSADecryptFailed            \<comment> \<open>the error RSA decrypt re-throws from its catch block\<close>
  | ElGamalEncryptFailed        \<comment> \<open>the error ElGamal encrypt re-throws from its catch block\<close>
  | ElGamalDecryptFailed        \<comment> \<open>the error ElGamal decrypt re-throws from its catch block\<close>
  | ElGamalKeyGenFailed         \<comment> \<open>the error ElGamal generateKeys re-throws from its catch block\<close>
  | TypeError                   \<comment> \<open>a value of the wrong shape: not iterable, BigInt(undefined)\<close>

section \<open>Modular exponentiation\<close>

text \<open>
  \<^verbatim>\<open>ElGamalEncryption.modPow\<close> and \<^verbatim>\<open>ECCEncryption.modPow\<close> are the same text:
  \<^verbatim>\<open>
  if (modulus === 1n) return 0n;
  let result = 1n;
  base = base % modulus;
  while (exponent > 0n) {
    if (exponent % 2n === 1n) { result = (result * base) % modulus; }
    exponent = exponent >> 1n;
    base = (base * base) % modulus;
  }
  return result;
  \<close>
  \<^verbatim>\<open>RSAEncryption.modExp\<close> differs in one line: \<^verbatim>\<open>exponent = exponent / 2n\<close>.
\<close>

function modPow_loop :: "int \<Rightarrow> int \<Rightarrow> int \<Rightarrow> int \<Rightarrow> int" where
  "modPow_loop result base exponent modulus =
     (if exponent > 0 then
        modPow_loop (if exponent smod 2 = 1 then (result * base) smod modulus else result)
                    ((base * base) smod modulus) (drop_bit 1 exponent) modulus
      else result)"
  by pat_completeness auto
termination
  by (relation "measure (\<lambda>(result, base, exponent, modulus). nat exponent)")
     (auto simp: drop_bit_eq_div)

declare modPow_loop.simps [simp del]

definition modPow :: "int \<Rightarrow> int \<Rightarrow> int \<Rightarrow> error + int" where
  "modPow base exponent modulus =
     (if modulus = 1 then Inr 0
      else if modulus = 0 then Inl RangeError
      else Inr (modPow_loop 1 (base smod modulus) exponent modulus))"

function modExp_loop :: "int \<Rightarrow> int \<Rightarrow> int \<Rightarrow> int \<Rightarrow> int" where
  "modExp_loop result base exponent modulus =
     (if exponent > 0 then
        modExp_loop (if exponent smod 2 = 1 then (result * base) smod modulus else result)
                    ((base * base) smod modulus) (exponent sdiv 2) modulus
      else result)"
  by pat_completeness auto
termination
  by (relation "measure (\<lambda>(result, base, exponent, modulus). nat exponent)")
     (auto simp: signed_divide_int_def sgn_if)

declare modExp_loop.simps [simp del]

definition modExp :: "int \<Rightarrow> int \<Rightarrow> int \<Rightarrow> error + int" where
  "modExp base exponent modulus =
     (if modulus = 1 then Inr 0
      else if modulus = 0 then Inl RangeError
      else Inr (modExp_loop 1 (base smod modulus) exponent modulus))"

section \<open>Modular inverse\<close>

text \<open>
  \<^verbatim>\<open>modInverse\<close> is the same text in all three classes:
  \<^verbatim>\<open>
  if (m === 1n) return 0n;
  a = ((a % m) + m) % m;
  let [old_r, r] = [a, m];
  let [old_s, s] = [1n, 0n];
  while (r !== 0n) {
    const quotient = old_r / r;
    [old_r, r] = [r, old_r - quotient * r];
    [old_s, s] = [s, old_s - quotient * s];
  }
  if (old_r !== 1n) { throw new Error(...GCD(a, m) = old_r...); }
  return (old_s % m + m) % m;
  \<close>
\<close>

function egcd_loop :: "int \<Rightarrow> int \<Rightarrow> int \<Rightarrow> int \<Rightarrow> int \<times> int" where
  "egcd_loop old_r r old_s s =
     (if r \<noteq> 0 then
        (let quotient = old_r sdiv r
         in egcd_loop r (old_r - quotient * r) s (old_s - quotient * s))
      else (old_r, old_s))"
  by pat_completeness auto
termination
proof (relation "measure (\<lambda>(old_r, r, old_s, s). nat \<bar>r\<bar>)")
  show "wf (measure (\<lambda>(old_r, r, old_s, s). nat \<bar>r\<bar>))" by simp
next
  fix old_r r old_s s x :: int
  assume r: "r \<noteq> 0" and x: "x = old_r sdiv r"
  have "old_r - x * r = old_r smod r"
    unfolding x by (rule minus_sdiv_mult_eq_smod)
  moreover have "\<bar>old_r smod r\<bar> < \<bar>r\<bar>"
    using smod_int_range [where a = old_r and b = r] r by auto
  ultimately show "((r, old_r - x * r, s, old_s - x * s), (old_r, r, old_s, s))
      \<in> measure (\<lambda>(old_r, r, old_s, s). nat \<bar>r\<bar>)"
    by simp
qed

declare egcd_loop.simps [simp del]

definition modInverse :: "int \<Rightarrow> int \<Rightarrow> error + int" where
  "modInverse a m =
     (if m = 1 then Inr 0
      else if m = 0 then Inl RangeError
      else
        (let a' = ((a smod m) + m) smod m;
             (old_r, old_s) = egcd_loop a' m 1 0
         in if old_r \<noteq> 1 then Inl (NoModInverse a' m old_r)
            else Inr ((old_s smod m + m) smod m)))"

section \<open>Bytes, text and randomness\<close>

text \<open>
  A \<^verbatim>\<open>Uint8Array\<close> is a list of bytes; a JavaScript string is the list of its UTF-16 code
  units. \<^verbatim>\<open>TextEncoder\<close> and \<^verbatim>\<open>TextDecoder\<close> belong to the host platform, not to the
  repository: the model takes them as fields of a \<open>platform\<close> record, absent (\<open>None\<close>) where
  the source's test \<^verbatim>\<open>typeof TextEncoder !== 'undefined'\<close> fails and the source falls back
  to its own byte-per-character conversion.

  \<^verbatim>\<open>getRandomBytes\<close> reads the platform's random source. The model passes the source
  along as the stream of the bytes still to come: a call takes the first \<open>len\<close> of them
  and returns the rest.
\<close>

type_synonym byte = "8 word"
type_synonym jstring = "16 word list"
type_synonym rnd = "nat \<Rightarrow> byte"

record platform =
  TextEncoder :: "(jstring \<Rightarrow> byte list) option"
  TextDecoder :: "(byte list \<Rightarrow> jstring) option"

definition getRandomBytes :: "nat \<Rightarrow> rnd \<Rightarrow> byte list \<times> rnd" where
  "getRandomBytes len rnd = (map rnd [0..<len], \<lambda>i. rnd (i + len))"

text \<open>
  \<^verbatim>\<open>stringToBytes\<close> and \<^verbatim>\<open>bytesToString\<close> (ElGamal and ECC, same text):
  \<^verbatim>\<open>
  if (typeof TextEncoder !== 'undefined') { return new TextEncoder().encode(str); }
  else { ... bytes[i] = str.charCodeAt(i) & 0xff; ... }

  if (typeof TextDecoder !== 'undefined') { return new TextDecoder().decode(bytes); }
  else { return Array.from(bytes).map(byte => String.fromCharCode(byte)).join(''); }
  \<close>
\<close>

definition stringToBytes :: "platform \<Rightarrow> jstring \<Rightarrow> byte list" where
  "stringToBytes env str =
     (case TextEncoder env of
        Some encode \<Rightarrow> encode str
      | None \<Rightarrow> map (\<lambda>c. ucast (c AND 0xff)) str)"

definition bytesToString :: "platform \<Rightarrow> byte list \<Rightarrow> jstring" where
  "bytesToString env bytes =
     (case TextDecoder env of
        Some decode \<Rightarrow> decode bytes
      | None \<Rightarrow> map ucast bytes)"

text \<open>
  \<^verbatim>\<open>bytesToBigInt\<close> (all three classes):
  \<^verbatim>\<open>
  let result = 0n;
  for (let i = 0; i < bytes.length; i++) { result = (result << 8n) | BigInt(bytes[i]); }
  return result;
  \<close>
\<close>

definition bytesToBigInt :: "byte list \<Rightarrow> int" where
  "bytesToBigInt bytes = foldl (\<lambda>result b. push_bit 8 result OR uint b) 0 bytes"

text \<open>
  \<^verbatim>\<open>getBitLength(n)\<close> is \<^verbatim>\<open>n.toString(2).length\<close>: the number of binary digits of
  \<open>\<bar>n\<bar>\<close> (one digit for 0), plus one character for the sign of a negative \<open>n\<close>.
\<close>

fun binary_digits :: "nat \<Rightarrow> nat" where
  "binary_digits n = (if n < 2 then 1 else Suc (binary_digits (n div 2)))"

declare binary_digits.simps [simp del]

definition getBitLength :: "int \<Rightarrow> nat" where
  "getBitLength n = (if n < 0 then Suc (binary_digits (nat (- n))) else binary_digits (nat n))"

text \<open>
  \<^verbatim>\<open>generateRandomBigInt(max)\<close> of ElGamal and ECC:
  \<^verbatim>\<open>
  const bitLength = this.getBitLength(max);
  let result: bigint;
  do {
    const byteLength = Math.ceil(bitLength / 8);
    const randomBytes = this.getRandomBytes(byteLength);
    result = this.bytesToBigInt(randomBytes);
    result = result % max;
  } while (result <= 0n);
  return result;
  \<close>
  The loop has no bound: the model is a partial function, \<open>None\<close> when the call never
  returns.
\<close>

partial_function (option) generateRandomBigInt :: "int \<Rightarrow> rnd \<Rightarrow> (error + int \<times> rnd) option" where
  "generateRandomBigInt maxv rnd =
     (let bitLength = getBitLength maxv;
          byteLength = (bitLength + 7) div 8;
          randomBytes = fst (getRandomBytes byteLength rnd);
          rnd' = snd (getRandomBytes byteLength rnd);
          result = bytesToBigInt randomBytes
      in if maxv = 0 then Some (Inl RangeError)
         else let result = result smod maxv
              in if result \<le> 0 then generateRandomBigInt maxv rnd'
                 else Some (Inr (result, rnd')))"

declare generateRandomBigInt.simps [code]

text \<open>
  The byte loop shared by \<^verbatim>\<open>bigIntToText\<close> and \<^verbatim>\<open>bigIntToBytes\<close> of ElGamal and ECC:
  \<^verbatim>\<open>
  const bytes: number[] = [];
  let temp = value;
  while (temp > 0n) { bytes.unshift(Number(temp & 0xFFn)); temp = temp >> 8n; }
  \<close>
\<close>

function unshift_loop :: "int \<Rightarrow> byte list \<Rightarrow> byte list" where
  "unshift_loop temp bytes =
     (if temp > 0 then unshift_loop (drop_bit 8 temp) (word_of_int (temp AND 0xFF) # bytes)
      else bytes)"
  by pat_completeness auto
termination
proof (relation "measure (\<lambda>(temp, bytes). nat temp)")
  show "wf (measure (\<lambda>(temp, bytes). nat temp))" by simp
next
  fix temp :: int and bytes :: "byte list"
  assume "0 < temp"
  then have "temp div 256 < temp" by simp
  then show "((drop_bit 8 temp, word_of_int (temp AND 0xFF) # bytes), (temp, bytes))
      \<in> measure (\<lambda>(temp, bytes). nat temp)"
    using \<open>0 < temp\<close> by (simp add: drop_bit_eq_div)
qed

declare unshift_loop.simps [simp del]

text \<open>
  \<^verbatim>\<open>bigIntToBytes(value, length?)\<close> of ElGamal and ECC pads on the left to \<open>length\<close> when one
  is given and never truncates.
\<close>

definition bigIntToBytes :: "int \<Rightarrow> nat option \<Rightarrow> byte list" where
  "bigIntToBytes val len =
     (let bytes = unshift_loop val []
      in case len of
           None \<Rightarrow> bytes
         | Some n \<Rightarrow> replicate (n - length bytes) 0 @ bytes)"

definition textToBigInt :: "platform \<Rightarrow> jstring \<Rightarrow> int" where
  "textToBigInt env txt = bytesToBigInt (stringToBytes env txt)"

definition bigIntToText :: "platform \<Rightarrow> int \<Rightarrow> jstring" where
  "bigIntToText env val = bytesToString env (unshift_loop val [])"

section \<open>ElGamal\<close>

text \<open>
  Keys and ciphertexts travel as decimal strings and JSON text; the model keeps the
  integers and the JSON value they denote. A single-block ciphertext is the object
  \<^verbatim>\<open>{c1, c2}\<close>, a blocked one the array of the blocks' ciphertexts. \<open>isBlocked\<close> is
  \<^verbatim>\<open>metadata.isBlocked\<close>, false when the result carries no metadata.
\<close>

definition BIG_PRIME :: int where
  "BIG_PRIME = 0xFFFFFFFFFFFFFFFFC90FDAA22168C234C4C6628B80DC1CD129024E088A67CC74020BBEA63B139B22514A08798E3404DDEF9519B3CD3A431B302B0A6DF25F14374FE1356D6D51C245E485B576625E7EC6F44C42E9A637ED6B0BFF5CB6F406B7EDEE386BFB5A899FA5AE9F24117C4B1FE649286651ECE45B3DC2007CB8A163BF0598DA48361C55D39A69163FA8FD24CF5F83655D23DCA3AD961C62F356208552BB9ED529077096966D670C354E4ABC9804F1746C08CA18217C32905E462E36CE3BE39E772C180E86039B2783A2EC07A28FB5C55DF06F4C52C9DE2BCBF6955817183995497CEA956AE515D2261898FA051015728E5A8AACAA68FFFFFFFFFFFFFFFF"

definition GENERATOR :: int where
  "GENERATOR = 2"

record ElGamalPublicKey =
  pk_y :: int
  pk_g :: int
  pk_p :: int

record ElGamalPrivateKey =
  sk_x :: int
  sk_p :: int

datatype eg_cipher = Pair int int | Arr "eg_cipher list"

record eg_result =
  ciphertext :: eg_cipher
  ephemeralKey :: "int option"
  isBlocked :: bool
  blockCount :: "nat option"

text \<open>
  \<^verbatim>\<open>generateKeys\<close>:
  \<^verbatim>\<open>
  try {
    const privateKey = this.generateRandomBigInt(this.BIG_PRIME - BigInt(1));
    const publicKey = this.modPow(this.GENERATOR, privateKey, this.BIG_PRIME);
    return { publicKey: {y, g, p}, privateKey: {x, p}, ... };
  } catch (error) { throw new Error(...key generation failed...); }
  \<close>
\<close>

definition generateKeys :: "rnd \<Rightarrow> (error + (ElGamalPublicKey \<times> ElGamalPrivateKey) \<times> rnd) option" where
  "generateKeys rnd =
     (case generateRandomBigInt (BIG_PRIME - 1) rnd of
        None \<Rightarrow> None
      | Some (Inl e) \<Rightarrow> Some (Inl ElGamalKeyGenFailed)
      | Some (Inr (privateKey, rnd')) \<Rightarrow>
          (case modPow GENERATOR privateKey BIG_PRIME of
             Inl e \<Rightarrow> Some (Inl ElGamalKeyGenFailed)
           | Inr publicKey \<Rightarrow>
               Some (Inr ((\<lparr>pk_y = publicKey, pk_g = GENERATOR, pk_p = BIG_PRIME\<rparr>,
                           \<lparr>sk_x = privateKey, sk_p = BIG_PRIME\<rparr>), rnd'))))"

text \<open>
  \<^verbatim>\<open>P.toString().length\<close>: the number of decimal digits, plus one for a minus sign.
\<close>

fun decimal_digits :: "nat \<Rightarrow> nat" where
  "decimal_digits n = (if n < 10 then 1 else Suc (decimal_digits (n div 10)))"

declare decimal_digits.simps [simp del]

definition toString_length :: "int \<Rightarrow> nat" where
  "toString_length n = (if n < 0 then Suc (decimal_digits (nat (- n))) else decimal_digits (nat n))"

text \<open>
  The splitting loop of \<^verbatim>\<open>blockEncrypt\<close>:
  \<^verbatim>\<open>
  for (let i = 0; i < messageBytes.length; i += blockSize) {
    blocks.push(messageBytes.slice(i, Math.min(i + blockSize, messageBytes.length)));
  }
  \<close>
  With \<open>blockSize = 0\<close> and a non-empty message the loop never ends; \<open>blockEncrypt\<close> below
  answers \<open>None\<close> there and calls \<open>split_loop\<close> only with a positive block size.
\<close>

function split_loop :: "byte list \<Rightarrow> nat \<Rightarrow> nat \<Rightarrow> byte list list" where
  "split_loop messageBytes blockSize i =
     (if i < length messageBytes \<and> 0 < blockSize then
        take (min (i + blockSize) (length messageBytes) - i) (drop i messageBytes)
          # split_loop messageBytes blockSize (i + blockSize)
      else [])"
  by pat_completeness auto
termination
  by (relation "measure (\<lambda>(messageBytes, blockSize, i). length messageBytes - i)") auto

declare split_loop.simps [simp del]

text \<open>
  The encrypting loop of \<^verbatim>\<open>blockEncrypt\<close>, over the blocks in order; \<open>enc\<close> stands for
  the call \<^verbatim>\<open>this.encrypt(blockMessage, publicKey)\<close>:
  \<^verbatim>\<open>
  for (const block of blocks) {
    const blockMessage = this.bytesToString(block);
    const blockResult = await this.encrypt(blockMessage, publicKey);
    encryptedBlocks.push(JSON.parse(blockResult.ciphertext));
  }
  \<close>
\<close>

fun encrypt_blocks ::
  "(jstring \<Rightarrow> rnd \<Rightarrow> (error + eg_result \<times> rnd) option) \<Rightarrow> platform \<Rightarrow> byte list list
    \<Rightarrow> eg_cipher list \<Rightarrow> rnd \<Rightarrow> (error + eg_cipher list \<times> rnd) option" where
  "encrypt_blocks enc env [] encryptedBlocks rnd = Some (Inr (encryptedBlocks, rnd))"
| "encrypt_blocks enc env (block # blocks) encryptedBlocks rnd =
     (let blockMessage = bytesToString env block
      in case enc blockMessage rnd of
           None \<Rightarrow> None
         | Some (Inl e) \<Rightarrow> Some (Inl e)
         | Some (Inr (blockResult, rnd')) \<Rightarrow>
             encrypt_blocks enc env blocks (encryptedBlocks @ [ciphertext blockResult]) rnd')"

definition blockEncrypt ::
  "(jstring \<Rightarrow> rnd \<Rightarrow> (error + eg_result \<times> rnd) option) \<Rightarrow> platform \<Rightarrow> jstring
    \<Rightarrow> ElGamalPublicKey \<Rightarrow> rnd \<Rightarrow> (error + eg_result \<times> rnd) option" where
  "blockEncrypt enc env message publicKey rnd =
     (let P = pk_p publicKey;
          blockSize = (toString_length P - 1) div 4;
          messageBytes = stringToBytes env message
      in if blockSize = 0 \<and> messageBytes \<noteq> [] then None
         else
           (let blocks = split_loop messageBytes blockSize 0
            in case encrypt_blocks enc env blocks [] rnd of
                 None \<Rightarrow> None
               | Some (Inl e) \<Rightarrow> Some (Inl e)
               | Some (Inr (encryptedBlocks, rnd')) \<Rightarrow>
                   Some (Inr (\<lparr>ciphertext = Arr encryptedBlocks, ephemeralKey = None,
                               isBlocked = True, blockCount = Some (length blocks)\<rparr>, rnd'))))"

text \<open>
  \<^verbatim>\<open>encrypt\<close>:
  \<^verbatim>\<open>
  try {
    const { y, g, p } = publicKey;  const Y = BigInt(y); const G = BigInt(g); const P = BigInt(p);
    const M = this.textToBigInt(message);
    if (M >= P) { return this.blockEncrypt(message, publicKey); }
    const k = this.generateRandomBigInt(P - BigInt(1));
    const c1 = this.modPow(G, k, P);
    const s = this.modPow(Y, k, P);
    const c2 = (M * s) % P;
    return { ciphertext: JSON.stringify({c1, c2}), ephemeralKey: k.toString(),
             metadata: { isBlocked: false } };
  } catch (error) { throw new Error(...encryption failed...); }
  \<close>
  \<open>encrypt_single\<close> is the part of the \<^verbatim>\<open>try\<close> block after the test \<^verbatim>\<open>M >= P\<close>. The promise
  of \<^verbatim>\<open>blockEncrypt\<close> is returned without \<^verbatim>\<open>await\<close>, so its rejection passes the
  \<^verbatim>\<open>catch\<close> untouched. \<^verbatim>\<open>encrypt\<close> and \<^verbatim>\<open>blockEncrypt\<close> call each other; the first argument
  of \<open>encrypt\<close> bounds the depth of these calls, and \<open>None\<close> is a call that needs more.
  For a key that keeps every block at or above \<open>p\<close> (a negative \<open>p\<close>) the calls nest until
  the engine's stack is exhausted; the model has \<open>None\<close> at every depth there.
\<close>

definition encrypt_single ::
  "int \<Rightarrow> ElGamalPublicKey \<Rightarrow> rnd \<Rightarrow> (error + eg_result \<times> rnd) option" where
  "encrypt_single M publicKey rnd =
     (let Y = pk_y publicKey; G = pk_g publicKey; P = pk_p publicKey
      in case generateRandomBigInt (P - 1) rnd of
           None \<Rightarrow> None
         | Some (Inl e) \<Rightarrow> Some (Inl e)
         | Some (Inr (k, rnd')) \<Rightarrow>
             (case modPow G k P of
                Inl e \<Rightarrow> Some (Inl e)
              | Inr c1 \<Rightarrow>
                  (case modPow Y k P of
                     Inl e \<Rightarrow> Some (Inl e)
                   | Inr s \<Rightarrow>
                       (let c2 = (M * s) smod P
                        in Some (Inr (\<lparr>ciphertext = Pair c1 c2, ephemeralKey = Some k,
                                       isBlocked = False, blockCount = None\<rparr>, rnd'))))))"

primrec encrypt ::
  "nat \<Rightarrow> platform \<Rightarrow> jstring \<Rightarrow> ElGamalPublicKey \<Rightarrow> rnd \<Rightarrow> (error + eg_result \<times> rnd) option" where
  "encrypt 0 = (\<lambda>env message publicKey rnd. None)"
| "encrypt (Suc depth) = (\<lambda>env message publicKey rnd.
     (let P = pk_p publicKey;
          M = textToBigInt env message
      in if M \<ge> P then
           blockEncrypt (\<lambda>blockMessage. encrypt depth env blockMessage publicKey) env message publicKey rnd
         else
           (case encrypt_single M publicKey rnd of
              None \<Rightarrow> None
            | Some (Inl e) \<Rightarrow> Some (Inl ElGamalEncryptFailed)
            | Some (Inr r) \<Rightarrow> Some (Inr r))))"

declare encrypt.simps [simp del]

text \<open>
  \<^verbatim>\<open>decrypt\<close>:
  \<^verbatim>\<open>
  try {
    const { x, p } = privateKey;  const X = BigInt(x); const P = BigInt(p);
    const metadata: any = encryptionResult.metadata || {};
    if (metadata.isBlocked) { return this.blockDecrypt(encryptionResult, privateKey); }
    const { c1, c2 } = JSON.parse(encryptionResult.ciphertext);
    const C1 = BigInt(c1); const C2 = BigInt(c2);
    const s = this.modPow(C1, X, P);
    const sInverse = this.modInverse(s, P);
    const M = (C2 * sInverse) % P;
    return this.bigIntToText(M);
  } catch (error) { throw new Error(...decryption failed...); }
  \<close>
  \<open>decrypt_single\<close> is the \<^verbatim>\<open>try\<close> block after the test of \<^verbatim>\<open>isBlocked\<close>, with its
  \<^verbatim>\<open>catch\<close>. \<^verbatim>\<open>blockDecrypt\<close> calls \<^verbatim>\<open>this.decrypt\<close> on results it builds without
  metadata, which therefore run \<open>decrypt_single\<close>:
  \<^verbatim>\<open>
  const encryptedBlocks = JSON.parse(encryptionResult.ciphertext);
  let decryptedText = '';
  for (const block of encryptedBlocks) {
    const blockResult: EncryptionResult = { ciphertext: JSON.stringify(block) };
    decryptedText += await this.decrypt(blockResult, privateKey);
  }
  return decryptedText;
  \<close>
\<close>

definition decrypt_single :: "platform \<Rightarrow> eg_cipher \<Rightarrow> ElGamalPrivateKey \<Rightarrow> error + jstring" where
  "decrypt_single env c privateKey =
     (let X = sk_x privateKey; P = sk_p privateKey
      in case c of
           Arr blocks \<Rightarrow> Inl ElGamalDecryptFailed
         | Pair C1 C2 \<Rightarrow>
             (case modPow C1 X P of
                Inl e \<Rightarrow> Inl ElGamalDecryptFailed
              | Inr s \<Rightarrow>
                  (case modInverse s P of
                     Inl e \<Rightarrow> Inl ElGamalDecryptFailed
                   | Inr sInverse \<Rightarrow>
                       (let M = (C2 * sInverse) smod P
                        in Inr (bigIntToText env M)))))"

fun decrypt_blocks ::
  "platform \<Rightarrow> eg_cipher list \<Rightarrow> ElGamalPrivateKey \<Rightarrow> jstring \<Rightarrow> error + jstring" where
  "decrypt_blocks env [] privateKey decryptedText = Inr decryptedText"
| "decrypt_blocks env (block # blocks) privateKey decryptedText =
     (case decrypt_single env block privateKey of
        Inl e \<Rightarrow> Inl e
      | Inr t \<Rightarrow> decrypt_blocks env blocks privateKey (decryptedText @ t))"

definition blockDecrypt :: "platform \<Rightarrow> eg_result \<Rightarrow> ElGamalPrivateKey \<Rightarrow> error + jstring" where
  "blockDecrypt env encryptionResult privateKey =
     (case ciphertext encryptionResult of
        Pair c1 c2 \<Rightarrow> Inl TypeError
      | Arr encryptedBlocks \<Rightarrow> decrypt_blocks env encryptedBlocks privateKey [])"

definition decrypt :: "platform \<Rightarrow> eg_result \<Rightarrow> ElGamalPrivateKey \<Rightarrow> error + jstring" where
  "decrypt env encryptionResult privateKey =
     (if isBlocked encryptionResult then blockDecrypt env encryptionResult privateKey
      else decrypt_single env (ciphertext encryptionResult) privateKey)"

section \<open>Concrete inputs\<close>

text \<open>
  Inputs at which the theorems below run the model: the platform without
  \<^verbatim>\<open>TextEncoder\<close> and \<^verbatim>\<open>TextDecoder\<close> (the source's fallback conversions), a random
  source whose every draw of 256 bytes is the number 1, the ElGamal key pair that
  \<^verbatim>\<open>generateKeys\<close> returns on that source, a message of 308 characters whose second
  block of 154 begins with U+0000, and an RSA modulus of 2048 bits.
\<close>

definition no_codec :: platform where
  "no_codec = \<lparr>TextEncoder = None, TextDecoder = None\<rparr>"

definition rnd_one :: rnd where
  "rnd_one i = (if i mod 256 = 255 then 1 else 0)"

definition block_message :: jstring where
  "block_message = replicate 154 0x61 @ [0] @ replicate 153 0x61"

definition pk_one :: ElGamalPublicKey where
  "pk_one = \<lparr>pk_y = 2, pk_g = 2, pk_p = BIG_PRIME\<rparr>"

definition sk_one :: ElGamalPrivateKey where
  "sk_one = \<lparr>sk_x = 1, sk_p = BIG_PRIME\<rparr>"

definition wide_modulus :: int where
  "wide_modulus = 2 ^ 2048 - 1"

section \<open>The host's text codec\<close>

text \<open>
  Where the platform has \<^verbatim>\<open>TextEncoder\<close> and \<^verbatim>\<open>TextDecoder\<close>, they are the UTF-8 codec of
  the WHATWG Encoding standard, written out here after that standard (they are not code
  of the repository). \<^verbatim>\<open>encode\<close> reads the string as scalar values, an unpaired surrogate
  as U+FFFD, and writes each in UTF-8. \<^verbatim>\<open>new TextDecoder().decode\<close> skips a leading byte
  order mark EF BB BF, decodes UTF-8 with U+FFFD for every malformed sequence, and writes
  the scalar values as UTF-16 code units.
\<close>

fun utf16_scalars :: "jstring \<Rightarrow> nat list" where
  "utf16_scalars [] = []"
| "utf16_scalars [c] = (if 0xD800 \<le> c \<and> c \<le> 0xDFFF then [0xFFFD] else [unat c])"
| "utf16_scalars (c1 # c2 # rest) =
     (if 0xD800 \<le> c1 \<and> c1 \<le> 0xDBFF \<and> 0xDC00 \<le> c2 \<and> c2 \<le> 0xDFFF
      then (0x10000 + (unat c1 - 0xD800) * 0x400 + (unat c2 - 0xDC00)) # utf16_scalars rest
      else if 0xD800 \<le> c1 \<and> c1 \<le> 0xDFFF then 0xFFFD # utf16_scalars (c2 # rest)
      else unat c1 # utf16_scalars (c2 # rest))"

definition utf8_bytes :: "nat \<Rightarrow> byte list" where
  "utf8_bytes cp =
     (if cp < 0x80 then [of_nat cp]
      else if cp < 0x800 then [of_nat (0xC0 + cp div 0x40), of_nat (0x80 + cp mod 0x40)]
      else if cp < 0x10000 then
        [of_nat (0xE0 + cp div 0x1000), of_nat (0x80 + cp div 0x40 mod 0x40),
         of_nat (0x80 + cp mod 0x40)]
      else
        [of_nat (0xF0 + cp div 0x40000), of_nat (0x80 + cp div 0x1000 mod 0x40),
         of_nat (0x80 + cp div 0x40 mod 0x40), of_nat (0x80 + cp mod 0x40)])"

definition host_encode :: "jstring \<Rightarrow> byte list" where
  "host_encode str = concat (map utf8_bytes (utf16_scalars str))"

text \<open>
  The decoder's state is the code point so far, the continuation bytes seen and needed,
  and the bounds of the next continuation byte. A byte outside the bounds ends the
  sequence with U+FFFD and is read again from the initial state.
\<close>

function utf8_decode_loop ::
  "nat \<Rightarrow> nat \<Rightarrow> nat \<Rightarrow> nat \<Rightarrow> nat \<Rightarrow> byte list \<Rightarrow> nat list" where
  "utf8_decode_loop cp seen needed lower upper [] = (if needed \<noteq> 0 then [0xFFFD] else [])"
| "utf8_decode_loop cp seen needed lower upper (b # bs) =
     (let v = unat b
      in if needed = 0 then
           (if v \<le> 0x7F then v # utf8_decode_loop 0 0 0 0x80 0xBF bs
            else if 0xC2 \<le> v \<and> v \<le> 0xDF then utf8_decode_loop (v mod 0x20) 0 1 0x80 0xBF bs
            else if 0xE0 \<le> v \<and> v \<le> 0xEF then
              utf8_decode_loop (v mod 0x10) 0 2
                (if v = 0xE0 then 0xA0 else 0x80) (if v = 0xED then 0x9F else 0xBF) bs
            else if 0xF0 \<le> v \<and> v \<le> 0xF4 then
              utf8_decode_loop (v mod 0x08) 0 3
                (if v = 0xF0 then 0x90 else 0x80) (if v = 0xF4 then 0x8F else 0xBF) bs
            else 0xFFFD # utf8_decode_loop 0 0 0 0x80 0xBF bs)
         else if \<not> (lower \<le> v \<and> v \<le> upper) then
           0xFFFD # utf8_decode_loop 0 0 0 0x80 0xBF (b # bs)
         else
           (let cp' = cp * 0x40 + v mod 0x40;
                seen' = seen + 1
            in if seen' \<noteq> needed then utf8_decode_loop cp' seen' needed 0x80 0xBF bs
               else cp' # utf8_decode_loop 0 0 0 0x80 0xBF bs))"
  by pat_completeness auto
termination
  by (relation "measure (\<lambda>(cp, seen, needed, lower, upper, bs).
        2 * length bs + (if needed = 0 then 0 else 1))") auto

definition utf16_units :: "nat \<Rightarrow> jstring" where
  "utf16_units cp =
     (if cp < 0x10000 then [of_nat cp]
      else [of_nat (0xD800 + (cp - 0x10000) div 0x400), of_nat (0xDC00 + (cp - 0x10000) mod 0x400)])"

definition host_decode :: "byte list \<Rightarrow> jstring" where
  "host_decode bytes =
     concat (map utf16_units
       (utf8_decode_loop 0 0 0 0x80 0xBF
          (if take 3 bytes = [0xEF, 0xBB, 0xBF] then drop 3 bytes else bytes)))"

definition host_platform :: platform where
  "host_platform = \<lparr>TextEncoder = Some host_encode, TextDecoder = Some host_decode\<rparr>"

section \<open>ECC: modular square root\<close>

text \<open>
  \<^verbatim>\<open>ECCEncryption.modSqrt(n, p)\<close> (Tonelli-Shanks):
  \<^verbatim>\<open>
  if (n === 0n) return 0n;
  if (p === 2n) return n;
  const legendreSymbol = this.modPow(n, (p - 1n) / 2n, p);
  if (legendreSymbol !== 1n) { throw new Error(...n is not a quadratic residue of p...); }
  let q = p - 1n;  let s = 0;
  while (q % 2n === 0n) { q /= 2n; s++; }
  if (s === 1) { return this.modPow(n, (p + 1n) / 4n, p); }
  let z = 2n;
  while (this.modPow(z, (p - 1n) / 2n, p) === 1n) { z++; }
  let c = this.modPow(z, q, p);
  let r = this.modPow(n, (q + 1n) / 2n, p);
  let t = this.modPow(n, q, p);
  let m = s;
  while (t !== 1n) {
    let i = 0;  let t2i = t;
    while (t2i !== 1n) {
      t2i = (t2i * t2i) % p;  i++;
      if (i >= m) { throw new Error(...cannot compute the square root...); }
    }
    let b = c;
    for (let j = 0; j < m - i - 1; j++) { b = (b * b) % p; }
    r = (r * b) % p;  c = (b * b) % p;  t = (t * c) % p;  m = i;
  }
  return r;
  \<close>
  The loop that halves \<open>q\<close> runs forever on \<open>q = 0\<close>, and the search for \<open>z\<close> has no
  bound: both are partial functions, and \<open>modSqrt\<close> is \<open>None\<close> where the call does not
  return. The two inner loops and the refinement loop always end.
\<close>

partial_function (option) factor_loop :: "int \<Rightarrow> nat \<Rightarrow> (int \<times> nat) option" where
  "factor_loop q s = (if q smod 2 = 0 then factor_loop (q sdiv 2) (s + 1) else Some (q, s))"

declare factor_loop.simps [code]

partial_function (option) find_nonresidue :: "int \<Rightarrow> int \<Rightarrow> (error + int) option" where
  "find_nonresidue z p =
     (case modPow z ((p - 1) sdiv 2) p of
        Inl e \<Rightarrow> Some (Inl e)
      | Inr v \<Rightarrow> if v = 1 then find_nonresidue (z + 1) p else Some (Inr z))"

declare find_nonresidue.simps [code]

function order_loop :: "int \<Rightarrow> nat \<Rightarrow> nat \<Rightarrow> int \<Rightarrow> error + nat" where
  "order_loop t2i i m p =
     (if t2i \<noteq> 1 then
        (let t2i' = (t2i * t2i) smod p;
             i' = i + 1
         in if i' \<ge> m then Inl CannotComputeSqrt else order_loop t2i' i' m p)
      else Inr i)"
  by pat_completeness auto
termination
  by (relation "measure (\<lambda>(t2i, i, m, p). m - i)") auto

declare order_loop.simps [simp del]

primrec square_loop :: "nat \<Rightarrow> int \<Rightarrow> int \<Rightarrow> int" where
  "square_loop 0 b p = b"
| "square_loop (Suc j) b p = square_loop j ((b * b) smod p) p"

function ts_loop :: "int \<Rightarrow> int \<Rightarrow> int \<Rightarrow> nat \<Rightarrow> int \<Rightarrow> error + int" where
  "ts_loop r c t m p =
     (if t \<noteq> 1 then
        (case order_loop t 0 m p of
           Inl e \<Rightarrow> Inl e
         | Inr i \<Rightarrow>
             (let b = square_loop (m - i - 1) c p;
                  r' = (r * b) smod p;
                  c' = (b * b) smod p;
                  t' = (t * c') smod p
              in ts_loop r' c' t' i p))
      else Inr r)"
  by pat_completeness auto
termination
proof (relation "measure (\<lambda>(r, c, t, m, p). m)")
  show "wf (measure (\<lambda>(r, c, t, m, p). m))" by simp
next
  fix r c t :: int and m :: nat and p :: int and i :: nat
    and b r' c' t' :: int
  assume t: "t \<noteq> 1" and ord: "order_loop t 0 m p = Inr i"
  have bound: "order_loop u j m p = Inr i \<Longrightarrow> u \<noteq> 1 \<Longrightarrow> i < m" for u j
  proof (induction u j m p rule: order_loop.induct)
    case (1 t2i i' m p)
    let ?u = "(t2i * t2i) smod p"
    from "1.prems" have lt: "\<not> m \<le> i' + 1" and rec: "order_loop ?u (i' + 1) m p = Inr i"
      by (subst (asm) order_loop.simps, simp add: Let_def split: if_splits)+
    show ?case
    proof (cases "?u = 1")
      case True
      then have "order_loop ?u (i' + 1) m p = Inr (i' + 1)"
        by (subst order_loop.simps) simp
      with rec lt show ?thesis by simp
    next
      case False
      from "1.IH" [OF "1.prems"(2) refl refl lt rec False] show ?thesis .
    qed
  qed
  from bound [OF ord t] show "((r', c', t', i, p), (r, c, t, m, p)) \<in> measure (\<lambda>(r, c, t, m, p). m)"
    by simp
qed

declare ts_loop.simps [simp del]

definition modSqrt :: "int \<Rightarrow> int \<Rightarrow> (error + int) option" where
  "modSqrt n p =
     (if n = 0 then Some (Inr 0)
      else if p = 2 then Some (Inr n)
      else
        (case modPow n ((p - 1) sdiv 2) p of
           Inl e \<Rightarrow> Some (Inl e)
         | Inr legendreSymbol \<Rightarrow>
             if legendreSymbol \<noteq> 1 then Some (Inl (NotQuadraticResidue n p))
             else
               (case factor_loop (p - 1) 0 of
                  None \<Rightarrow> None
                | Some (q, s) \<Rightarrow>
                    if s = 1 then Some (modPow n ((p + 1) sdiv 4) p)
                    else
                      (case find_nonresidue 2 p of
                         None \<Rightarrow> None
                       | Some (Inl e) \<Rightarrow> Some (Inl e)
                       | Some (Inr z) \<Rightarrow>
                           (case modPow z q p of
                              Inl e \<Rightarrow> Some (Inl e)
                            | Inr c \<Rightarrow>
                                (case modPow n ((q + 1) sdiv 2) p of
                                   Inl e \<Rightarrow> Some (Inl e)
                                 | Inr r \<Rightarrow>
                                     (case modPow n q p of
                                        Inl e \<Rightarrow> Some (Inl e)
                                      | Inr t \<Rightarrow> Some (ts_loop r c t s p))))))))"

section \<open>RSA: typed arrays, the stand-in hash and MGF1\<close>

text \<open>
  A \<^verbatim>\<open>Uint8Array\<close> has a fixed length. \<^verbatim>\<open>new Uint8Array(n)\<close> is \<open>n\<close> zero bytes;
  \<^verbatim>\<open>dst.set(src, off)\<close> overwrites \<open>dst\<close> from \<open>off\<close> and throws a \<^verbatim>\<open>RangeError\<close> when \<open>src\<close>
  does not fit; a write \<^verbatim>\<open>dst[i] = v\<close> outside the array is ignored; a read outside the
  array is \<^verbatim>\<open>undefined\<close> (\<open>None\<close>), which \<^verbatim>\<open>^\<close> takes for 0; \<^verbatim>\<open>xs.slice(a, b)\<close> is
  \<open>take (b - a) (drop a xs)\<close>.
\<close>

definition bindE :: "error + 'a \<Rightarrow> ('a \<Rightarrow> error + 'b) \<Rightarrow> error + 'b" where
  "bindE x f = (case x of Inl e \<Rightarrow> Inl e | Inr v \<Rightarrow> f v)"

definition u8_new :: "nat \<Rightarrow> byte list" where
  "u8_new n = replicate n 0"

definition u8_set :: "byte list \<Rightarrow> byte list \<Rightarrow> nat \<Rightarrow> error + byte list" where
  "u8_set dst src off =
     (if off + length src \<le> length dst
      then Inr (take off dst @ src @ drop (off + length src) dst)
      else Inl RangeError)"

definition u8_put :: "byte list \<Rightarrow> nat \<Rightarrow> byte \<Rightarrow> byte list" where
  "u8_put dst i v = (if i < length dst then dst[i := v] else dst)"

definition u8_at :: "byte list \<Rightarrow> nat \<Rightarrow> byte option" where
  "u8_at xs i = (if i < length xs then Some (xs ! i) else None)"

definition u8_xor :: "byte option \<Rightarrow> byte option \<Rightarrow> byte" where
  "u8_xor a b = (case a of None \<Rightarrow> 0 | Some x \<Rightarrow> x) XOR (case b of None \<Rightarrow> 0 | Some y \<Rightarrow> y)"

text \<open>
  The masking loops of OAEP,
  \<^verbatim>\<open>for (let i = 0; i < n; i++) { out[i] = a[i] ^ b[i]; }\<close> on a fresh \<open>out\<close> of length \<open>n\<close>.
\<close>

definition xor_loop :: "nat \<Rightarrow> byte list \<Rightarrow> byte list \<Rightarrow> byte list" where
  "xor_loop n a b = map (\<lambda>i. u8_xor (u8_at a i) (u8_at b i)) [0..<n]"

text \<open>
  \<^verbatim>\<open>simpleHashBytes\<close>: eight 32-bit words \<open>h0 .. h7\<close>, each updated for every input byte by
  \<^verbatim>\<open>h = ((h << 5) - h) + byte; h |= 0;\<close> and written out big-endian,
  \<^verbatim>\<open>result[i + 4 * j] = (hj >>> (24 - i * 8)) & 0xff\<close>. The updates are exact in double
  precision, so \<^verbatim>\<open>|= 0\<close> leaves the value modulo \<open>2 ^ 32\<close>: arithmetic on \<open>32 word\<close>.
\<close>

type_synonym hash_state =
  "32 word \<times> 32 word \<times> 32 word \<times> 32 word \<times> 32 word \<times> 32 word \<times> 32 word \<times> 32 word"

definition hash_mix :: "byte \<Rightarrow> 32 word \<Rightarrow> 32 word" where
  "hash_mix b h = (push_bit 5 h - h) + ucast b"

fun hash_step :: "hash_state \<Rightarrow> byte \<Rightarrow> hash_state" where
  "hash_step (h0, h1, h2, h3, h4, h5, h6, h7) b =
     (hash_mix b h0, hash_mix b h1, hash_mix b h2, hash_mix b h3,
      hash_mix b h4, hash_mix b h5, hash_mix b h6, hash_mix b h7)"

definition word_bytes :: "32 word \<Rightarrow> byte list" where
  "word_bytes h = [ucast (drop_bit 24 h), ucast (drop_bit 16 h), ucast (drop_bit 8 h), ucast h]"

fun hash_output :: "hash_state \<Rightarrow> byte list" where
  "hash_output (h0, h1, h2, h3, h4, h5, h6, h7) =
     word_bytes h0 @ word_bytes h1 @ word_bytes h2 @ word_bytes h3 @
     word_bytes h4 @ word_bytes h5 @ word_bytes h6 @ word_bytes h7"

definition simpleHashBytes :: "byte list \<Rightarrow> byte list" where
  "simpleHashBytes data =
     hash_output (foldl hash_step
       (0x6a09e667, 0xbb67ae85, 0x3c6ef372, 0xa54ff53a,
        0x510e527f, 0x9b05688c, 0x1f83d9ab, 0x5be0cd19) data)"

text \<open>
  \<^verbatim>\<open>mgf1(seed, maskLen)\<close>:
  \<^verbatim>\<open>
  const mask = new Uint8Array(maskLen);
  const T = new Uint8Array(seed.length + 4);  T.set(seed, 0);
  let pos = 0;
  for (let counter = 0; pos < maskLen; counter++) {
    T[seed.length] = (counter >>> 24) & 0xff;  T[seed.length + 1] = (counter >>> 16) & 0xff;
    T[seed.length + 2] = (counter >>> 8) & 0xff;  T[seed.length + 3] = counter & 0xff;
    const hash = this.simpleHashBytes(T);
    const len = Math.min(hash.length, maskLen - pos);
    mask.set(hash.slice(0, len), pos);
    pos += len;
  }
  return mask;
  \<close>
\<close>

definition counter_bytes :: "nat \<Rightarrow> byte list" where
  "counter_bytes counter =
     [of_nat (counter div 2 ^ 24), of_nat (counter div 2 ^ 16), of_nat (counter div 2 ^ 8),
      of_nat counter]"

function mgf1_loop :: "byte list \<Rightarrow> nat \<Rightarrow> nat \<Rightarrow> nat \<Rightarrow> byte list \<Rightarrow> error + byte list" where
  "mgf1_loop seed maskLen counter pos maskArr =
     (if pos < maskLen then
        (let T = seed @ counter_bytes counter;
             hash = simpleHashBytes T;
             len = min (length hash) (maskLen - pos)
         in bindE (u8_set maskArr (take len hash) pos)
              (\<lambda>maskArr'. mgf1_loop seed maskLen (counter + 1) (pos + len) maskArr'))
      else Inr maskArr)"
  by pat_completeness auto
termination
proof (relation "measure (\<lambda>(seed, maskLen, counter, pos, maskArr). maskLen - pos)")
  show "wf (measure (\<lambda>(seed, maskLen, counter, pos, maskArr). maskLen - pos))" by simp
next
  fix seed :: "byte list" and maskLen counter pos :: nat and maskArr T hash :: "byte list"
    and len :: nat and maskArr' :: "byte list"
  assume lt: "pos < maskLen" and h: "hash = simpleHashBytes T"
    and l: "len = min (length hash) (maskLen - pos)"
  have "length (hash_output st) = 32" for st
    by (cases st rule: hash_output.cases) (simp add: word_bytes_def)
  then have "length hash = 32" unfolding h simpleHashBytes_def .
  then have "0 < len" using l lt by simp
  then show "((seed, maskLen, counter + 1, pos + len, maskArr'), (seed, maskLen, counter, pos, maskArr))
      \<in> measure (\<lambda>(seed, maskLen, counter, pos, maskArr). maskLen - pos)"
    using lt by simp
qed

declare mgf1_loop.simps [simp del]

definition mgf1 :: "byte list \<Rightarrow> nat \<Rightarrow> error + byte list" where
  "mgf1 seed maskLen = mgf1_loop seed maskLen 0 0 (u8_new maskLen)"

section \<open>RSA: OAEP, encryption and the primality test\<close>

text \<open>
  \<^verbatim>\<open>hexToBytes\<close> pads a string of odd length with a leading \<open>0\<close> and reads two characters
  at a time with \<^verbatim>\<open>parseInt(.., 16)\<close>:
  \<^verbatim>\<open>
  if (hex.length % 2 !== 0) { hex = '0' + hex; }
  const bytes = new Uint8Array(hex.length / 2);
  for (let i = 0; i < bytes.length; i++) { bytes[i] = parseInt(hex.substring(i * 2, i * 2 + 2), 16); }
  \<close>
  On a string of two characters \<^verbatim>\<open>parseInt\<close> skips leading white space, takes one sign,
  drops a prefix \<^verbatim>\<open>0x\<close>, and reads the hexadecimal digits up to the first character that is
  none; with no digit it answers \<^verbatim>\<open>NaN\<close>. The typed array stores \<^verbatim>\<open>NaN\<close> as 0 and a negative
  number modulo 256. The strings are of type \<^typ>\<open>string\<close>, characters below 256: the only
  argument in the source is the constant \<^verbatim>\<open>LABEL_HASH\<close>, 64 hexadecimal digits.
\<close>

definition hex_digit :: "char \<Rightarrow> nat option" where
  "hex_digit c =
     (let n = (of_char c :: nat)
      in if 48 \<le> n \<and> n \<le> 57 then Some (n - 48)
         else if 97 \<le> n \<and> n \<le> 102 then Some (n - 87)
         else if 65 \<le> n \<and> n \<le> 70 then Some (n - 55)
         else None)"

definition js_whitespace :: "char \<Rightarrow> bool" where
  "js_whitespace c = (let n = (of_char c :: nat) in (9 \<le> n \<and> n \<le> 13) \<or> n = 32 \<or> n = 160)"

definition parseInt16 :: "char \<Rightarrow> char \<Rightarrow> byte" where
  "parseInt16 c1 c2 =
     (if js_whitespace c1 \<or> c1 = CHR ''+'' then
        (case hex_digit c2 of None \<Rightarrow> 0 | Some b \<Rightarrow> of_nat b)
      else if c1 = CHR ''-'' then
        (case hex_digit c2 of None \<Rightarrow> 0 | Some b \<Rightarrow> - of_nat b)
      else
        (case hex_digit c1 of
           None \<Rightarrow> 0
         | Some a \<Rightarrow> (case hex_digit c2 of None \<Rightarrow> of_nat a | Some b \<Rightarrow> of_nat (16 * a + b))))"

fun hex_pairs :: "string \<Rightarrow> byte list" where
  "hex_pairs (c1 # c2 # rest) = parseInt16 c1 c2 # hex_pairs rest"
| "hex_pairs rest = []"

definition hexToBytes :: "string \<Rightarrow> byte list" where
  "hexToBytes hex = hex_pairs (if odd (length hex) then CHR ''0'' # hex else hex)"

definition HASH_LENGTH :: nat where
  "HASH_LENGTH = 32"

definition LABEL_HASH :: string where
  "LABEL_HASH = ''dd70c595b5d5ed70d7892d713e5472bf866312dacad9612c5aeabdccfc40bef8''"

text \<open>
  \<^verbatim>\<open>oaep_encode(message, k)\<close>:
  \<^verbatim>\<open>
  const mLen = message.length;  const hLen = this.HASH_LENGTH;
  if (mLen > k - 2 * hLen - 2) { throw new Error(...message too long...); }
  const lHash = this.hexToBytes(this.LABEL_HASH);
  const em = new Uint8Array(k);
  const db = new Uint8Array(k - hLen - 1);
  db.set(lHash, 0);
  db[k - mLen - hLen - 2] = 0x01;
  db.set(message, k - mLen - hLen - 1);
  const seed = this.getRandomBytes(hLen);
  const dbMask = this.mgf1(seed, k - hLen - 1);
  const maskedDB = new Uint8Array(k - hLen - 1);
  for (let i = 0; i < k - hLen - 1; i++) { maskedDB[i] = db[i] ^ dbMask[i]; }
  const seedMask = this.mgf1(maskedDB, hLen);
  const maskedSeed = new Uint8Array(hLen);
  for (let i = 0; i < hLen; i++) { maskedSeed[i] = seed[i] ^ seedMask[i]; }
  em[0] = 0x00;  em.set(maskedSeed, 1);  em.set(maskedDB, hLen + 1);
  return em;
  \<close>
  \<open>k\<close> is a JavaScript number, an \<^typ>\<open>int\<close> here; past the length check it is at least
  \<open>2 * hLen + 2\<close>, so every size and index below is a natural number.
\<close>

definition oaep_encode :: "byte list \<Rightarrow> int \<Rightarrow> rnd \<Rightarrow> error + byte list \<times> rnd" where
  "oaep_encode message k rnd =
     (let mLen = int (length message);
          hLen = int HASH_LENGTH
      in if mLen > k - 2 * hLen - 2 then Inl MessageTooLong
         else
           (let lHash = hexToBytes LABEL_HASH;
                em = u8_new (nat k);
                db = u8_new (nat (k - hLen - 1))
            in bindE (u8_set db lHash 0) (\<lambda>db.
               let db = u8_put db (nat (k - mLen - hLen - 2)) 0x01
               in bindE (u8_set db message (nat (k - mLen - hLen - 1))) (\<lambda>db.
               let seed = fst (getRandomBytes HASH_LENGTH rnd);
                   rnd' = snd (getRandomBytes HASH_LENGTH rnd)
               in bindE (mgf1 seed (nat (k - hLen - 1))) (\<lambda>dbMask.
               let maskedDB = xor_loop (nat (k - hLen - 1)) db dbMask
               in bindE (mgf1 maskedDB HASH_LENGTH) (\<lambda>seedMask.
               let maskedSeed = xor_loop HASH_LENGTH seed seedMask;
                   em = u8_put em 0 0x00
               in bindE (u8_set em maskedSeed 1) (\<lambda>em.
                  bindE (u8_set em maskedDB (HASH_LENGTH + 1)) (\<lambda>em.
                  Inr (em, rnd')))))))))"

text \<open>
  \<^verbatim>\<open>oaep_decode(em, k)\<close>:
  \<^verbatim>\<open>
  if (k < 2 * hLen + 2) { throw new Error(...encoded message too short...); }
  if (em[0] !== 0x00) { throw new Error(...malformed...); }
  const maskedSeed = em.slice(1, hLen + 1);
  const maskedDB = em.slice(hLen + 1);
  const seedMask = this.mgf1(maskedDB, hLen);
  const seed = new Uint8Array(hLen);
  for (let i = 0; i < hLen; i++) { seed[i] = maskedSeed[i] ^ seedMask[i]; }
  const dbMask = this.mgf1(seed, k - hLen - 1);
  const db = new Uint8Array(k - hLen - 1);
  for (let i = 0; i < k - hLen - 1; i++) { db[i] = maskedDB[i] ^ dbMask[i]; }
  const lHash = this.hexToBytes(this.LABEL_HASH);
  for (let i = 0; i < hLen; i++) {
    if (db[i] !== lHash[i]) { throw new Error(...label hash mismatch...); }
  }
  let i = hLen;
  while (i < db.length && db[i] === 0) { i++; }
  if (i === db.length || db[i] !== 0x01) { throw new Error(...no separator...); }
  return db.slice(i + 1);
  \<close>
\<close>

function scan_zeros :: "byte list \<Rightarrow> nat \<Rightarrow> nat" where
  "scan_zeros db i = (if i < length db \<and> db ! i = 0 then scan_zeros db (i + 1) else i)"
  by pat_completeness auto
termination
  by (relation "measure (\<lambda>(db, i). length db - i)") auto

declare scan_zeros.simps [simp del]

definition oaep_decode :: "byte list \<Rightarrow> int \<Rightarrow> error + byte list" where
  "oaep_decode em k =
     (let hLen = int HASH_LENGTH
      in if k < 2 * hLen + 2 then Inl EncodedMessageTooShort
         else if u8_at em 0 \<noteq> Some 0x00 then Inl EncodedMessageMalformed
         else
           (let maskedSeed = take HASH_LENGTH (drop 1 em);
                maskedDB = drop (HASH_LENGTH + 1) em
            in bindE (mgf1 maskedDB HASH_LENGTH) (\<lambda>seedMask.
               let seed = xor_loop HASH_LENGTH maskedSeed seedMask
               in bindE (mgf1 seed (nat (k - hLen - 1))) (\<lambda>dbMask.
               let db = xor_loop (nat (k - hLen - 1)) maskedDB dbMask;
                   lHash = hexToBytes LABEL_HASH
               in if list_ex (\<lambda>i. u8_at db i \<noteq> u8_at lHash i) [0..<HASH_LENGTH]
                  then Inl LabelHashMismatch
                  else
                    (let i = scan_zeros db HASH_LENGTH
                     in if i = length db \<or> u8_at db i \<noteq> Some 0x01 then Inl SeparatorNotFound
                        else Inr (drop (i + 1) db))))))"

text \<open>
  \<^verbatim>\<open>RSAEncryption.bigIntToBytes(value, length)\<close> fills a fixed-length array from its last
  byte and drops what does not fit:
  \<^verbatim>\<open>
  const bytes = new Uint8Array(length);
  for (let i = length - 1; i >= 0; i--) { bytes[i] = Number(value & 0xffn); value = value >> 8n; }
  \<close>
\<close>

primrec rsa_fill :: "nat \<Rightarrow> int \<Rightarrow> byte list \<Rightarrow> byte list" where
  "rsa_fill 0 val bytes = bytes"
| "rsa_fill (Suc i) val bytes =
     rsa_fill i (drop_bit 8 val) (u8_put bytes i (word_of_int (val AND 0xff)))"

definition rsa_bigIntToBytes :: "int \<Rightarrow> nat \<Rightarrow> byte list" where
  "rsa_bigIntToBytes val len = rsa_fill len val (u8_new len)"

text \<open>
  An RSA key is a PEM string around Base64 around JSON; the model keeps what the string
  decodes to. \<^verbatim>\<open>extractPublicKeyComponents\<close> throws on anything but a public key, and
  \<^verbatim>\<open>extractPrivateKeyComponents\<close> on anything but a private key. The ciphertext, a Base64
  string, is the byte array it encodes.
\<close>

datatype rsa_key_text = PublicKeyPEM int int | PrivateKeyPEM int int | NotAKey

definition extractPublicKeyComponents :: "rsa_key_text \<Rightarrow> error + int \<times> int" where
  "extractPublicKeyComponents publicKey =
     (case publicKey of PublicKeyPEM n e \<Rightarrow> Inr (n, e) | _ \<Rightarrow> Inl InvalidKeyFormat)"

definition extractPrivateKeyComponents :: "rsa_key_text \<Rightarrow> error + int \<times> int" where
  "extractPrivateKeyComponents privateKey =
     (case privateKey of PrivateKeyPEM n d \<Rightarrow> Inr (n, d) | _ \<Rightarrow> Inl InvalidKeyFormat)"

text \<open>
  \<^verbatim>\<open>RSAEncryption.encrypt\<close>:
  \<^verbatim>\<open>
  try {
    const { n, e } = this.extractPublicKeyComponents(publicKey);
    const messageBytes = new TextEncoder().encode(message);
    const keyLenBytes = Math.ceil(this.getBitLength(n) / 8);
    const maxMessageLen = keyLenBytes - 2 * this.HASH_LENGTH - 2;
    if (messageBytes.length > maxMessageLen) { throw new Error(...message too long...); }
    const paddedMessage = await this.oaep_encode(messageBytes, keyLenBytes);
    const paddedMessageInt = this.bytesToBigInt(paddedMessage);
    const cipherInt = this.modExp(paddedMessageInt, e, n);
    const cipherBytes = this.bigIntToBytes(cipherInt, keyLenBytes);
    const ciphertext = this.bytesToBase64(cipherBytes);
    return { ciphertext, metadata: {...} };
  } catch (error) {
    console.error(..., error);
    throw new Error(...RSA encryption failed...);
  }
  \<close>
  \<open>rsa_encrypt_try\<close> is the \<^verbatim>\<open>try\<close> block, \<open>rsa_encrypt\<close> the method with its \<^verbatim>\<open>catch\<close>.
\<close>

definition rsa_encrypt_try ::
  "platform \<Rightarrow> jstring \<Rightarrow> rsa_key_text \<Rightarrow> rnd \<Rightarrow> error + byte list \<times> rnd" where
  "rsa_encrypt_try env message publicKey rnd =
     bindE (extractPublicKeyComponents publicKey) (\<lambda>(n, e).
       case TextEncoder env of
         None \<Rightarrow> Inl ReferenceError
       | Some encode \<Rightarrow>
           (let messageBytes = encode message;
                keyLenBytes = (getBitLength n + 7) div 8;
                maxMessageLen = int keyLenBytes - 2 * int HASH_LENGTH - 2
            in if int (length messageBytes) > maxMessageLen then Inl MessageTooLong
               else
                 bindE (oaep_encode messageBytes (int keyLenBytes) rnd) (\<lambda>(paddedMessage, rnd').
                 let paddedMessageInt = bytesToBigInt paddedMessage
                 in bindE (modExp paddedMessageInt e n) (\<lambda>cipherInt.
                    let cipherBytes = rsa_bigIntToBytes cipherInt keyLenBytes
                    in Inr (cipherBytes, rnd')))))"

definition rsa_encrypt ::
  "platform \<Rightarrow> jstring \<Rightarrow> rsa_key_text \<Rightarrow> rnd \<Rightarrow> error + byte list \<times> rnd" where
  "rsa_encrypt env message publicKey rnd =
     (case rsa_encrypt_try env message publicKey rnd of
        Inl e \<Rightarrow> Inl RSAEncryptFailed
      | Inr r \<Rightarrow> Inr r)"

text \<open>
  \<^verbatim>\<open>RSAEncryption.decrypt\<close>:
  \<^verbatim>\<open>
  try {
    const { n, d } = this.extractPrivateKeyComponents(privateKey);
    const ciphertextBytes = this.base64ToBytes(encryptionResult.ciphertext);
    const cipherInt = this.bytesToBigInt(ciphertextBytes);
    const keyLenBytes = Math.ceil(this.getBitLength(n) / 8);
    const paddedMessageInt = this.modExp(cipherInt, d, n);
    const paddedMessage = this.bigIntToBytes(paddedMessageInt, keyLenBytes);
    const messageBytes = await this.oaep_decode(paddedMessage, keyLenBytes);
    const message = new TextDecoder().decode(messageBytes);
    return message;
  } catch (error) { throw new Error(...RSA decryption failed...); }
  \<close>
\<close>

definition rsa_decrypt_try :: "platform \<Rightarrow> byte list \<Rightarrow> rsa_key_text \<Rightarrow> error + jstring" where
  "rsa_decrypt_try env ciphertextBytes privateKey =
     bindE (extractPrivateKeyComponents privateKey) (\<lambda>(n, d).
       let cipherInt = bytesToBigInt ciphertextBytes;
           keyLenBytes = (getBitLength n + 7) div 8
       in bindE (modExp cipherInt d n) (\<lambda>paddedMessageInt.
          let paddedMessage = rsa_bigIntToBytes paddedMessageInt keyLenBytes
          in bindE (oaep_decode paddedMessage (int keyLenBytes)) (\<lambda>messageBytes.
             case TextDecoder env of
               None \<Rightarrow> Inl ReferenceError
             | Some decode \<Rightarrow> Inr (decode messageBytes))))"

definition rsa_decrypt :: "platform \<Rightarrow> byte list \<Rightarrow> rsa_key_text \<Rightarrow> error + jstring" where
  "rsa_decrypt env ciphertextBytes privateKey =
     (case rsa_decrypt_try env ciphertextBytes privateKey of
        Inl e \<Rightarrow> Inl RSADecryptFailed
      | Inr message \<Rightarrow> Inr message)"

text \<open>
  \<^verbatim>\<open>RSAEncryption.generateRandomBigInt(bits)\<close> forces the lowest and the highest bit of
  the bytes it draws:
  \<^verbatim>\<open>
  const bytes = Math.ceil(bits / 8);
  const randomBytes = this.getRandomBytes(bytes);
  randomBytes[bytes - 1] |= 1;
  randomBytes[0] |= 0x80;
  return this.bytesToBigInt(randomBytes);
  \<close>
\<close>

definition u8_or :: "byte list \<Rightarrow> int \<Rightarrow> byte \<Rightarrow> byte list" where
  "u8_or xs i v = (if 0 \<le> i \<and> nat i < length xs then xs[nat i := xs ! nat i OR v] else xs)"

definition rsa_generateRandomBigInt :: "nat \<Rightarrow> rnd \<Rightarrow> int \<times> rnd" where
  "rsa_generateRandomBigInt bits rnd =
     (let bytes = (bits + 7) div 8;
          randomBytes = fst (getRandomBytes bytes rnd);
          rnd' = snd (getRandomBytes bytes rnd);
          randomBytes = u8_or randomBytes (int bytes - 1) 1;
          randomBytes = u8_or randomBytes 0 0x80
      in (bytesToBigInt randomBytes, rnd'))"

text \<open>
  \<^verbatim>\<open>randomBigIntInRange(min, max)\<close>:
  \<^verbatim>\<open>
  const range = max - min + 1n;
  const bits = this.getBitLength(range);
  while (true) {
    const value = this.generateRandomBigInt(bits);
    if (value < range) { return min + value; }
  }
  \<close>
  The loop has no bound: a partial function. \<open>span\<close> is the source's \<^verbatim>\<open>range\<close>.
\<close>

partial_function (option) randomBigIntInRange_loop :: "int \<Rightarrow> int \<Rightarrow> nat \<Rightarrow> rnd \<Rightarrow> (int \<times> rnd) option" where
  "randomBigIntInRange_loop minv span bits rnd =
     (let value = fst (rsa_generateRandomBigInt bits rnd);
          rnd' = snd (rsa_generateRandomBigInt bits rnd)
      in if value < span then Some (minv + value, rnd')
         else randomBigIntInRange_loop minv span bits rnd')"

declare randomBigIntInRange_loop.simps [code]

definition randomBigIntInRange :: "int \<Rightarrow> int \<Rightarrow> rnd \<Rightarrow> (int \<times> rnd) option" where
  "randomBigIntInRange minv maxv rnd =
     (let span = maxv - minv + 1;
          bits = getBitLength span
      in randomBigIntInRange_loop minv span bits rnd)"

text \<open>
  \<^verbatim>\<open>millerRabinTest(n, k)\<close>:
  \<^verbatim>\<open>
  if (n <= 1n) return false;
  if (n === 2n || n === 3n) return true;
  if (n % 2n === 0n) return false;
  let r = 0;  let d = n - 1n;
  while (d % 2n === 0n) { d /= 2n; r++; }
  for (let i = 0; i < k; i++) {
    const a = this.randomBigIntInRange(2n, n - 2n);
    let x = this.modExp(a, d, n);
    if (x === 1n || x === n - 1n) continue;
    let continueNextWitness = false;
    for (let j = 0; j < r - 1; j++) {
      x = this.modExp(x, 2n, n);
      if (x === n - 1n) { continueNextWitness = true; break; }
    }
    if (continueNextWitness) continue;
    return false;
  }
  return true;
  \<close>
  \<open>None\<close> is a call that does not return.
\<close>

partial_function (option) halve_loop :: "int \<Rightarrow> nat \<Rightarrow> (int \<times> nat) option" where
  "halve_loop d r = (if d smod 2 = 0 then halve_loop (d sdiv 2) (r + 1) else Some (d, r))"

declare halve_loop.simps [code]

primrec squaring_loop :: "nat \<Rightarrow> int \<Rightarrow> int \<Rightarrow> error + bool" where
  "squaring_loop 0 x n = Inr False"
| "squaring_loop (Suc j) x n =
     bindE (modExp x 2 n) (\<lambda>x. if x = n - 1 then Inr True else squaring_loop j x n)"

primrec witness_loop :: "nat \<Rightarrow> int \<Rightarrow> int \<Rightarrow> nat \<Rightarrow> rnd \<Rightarrow> (error + bool \<times> rnd) option" where
  "witness_loop 0 n d r rnd = Some (Inr (True, rnd))"
| "witness_loop (Suc i) n d r rnd =
     (case randomBigIntInRange 2 (n - 2) rnd of
        None \<Rightarrow> None
      | Some (a, rnd') \<Rightarrow>
          (case modExp a d n of
             Inl e \<Rightarrow> Some (Inl e)
           | Inr x \<Rightarrow>
               if x = 1 \<or> x = n - 1 then witness_loop i n d r rnd'
               else
                 (case squaring_loop (r - 1) x n of
                    Inl e \<Rightarrow> Some (Inl e)
                  | Inr continueNextWitness \<Rightarrow>
                      if continueNextWitness then witness_loop i n d r rnd'
                      else Some (Inr (False, rnd')))))"

definition millerRabinTest :: "int \<Rightarrow> nat \<Rightarrow> rnd \<Rightarrow> (error + bool \<times> rnd) option" where
  "millerRabinTest n k rnd =
     (if n \<le> 1 then Some (Inr (False, rnd))
      else if n = 2 \<or> n = 3 then Some (Inr (True, rnd))
      else if n smod 2 = 0 then Some (Inr (False, rnd))
      else
        (case halve_loop (n - 1) 0 of
           None \<Rightarrow> None
         | Some (d, r) \<Rightarrow> witness_loop k n d r rnd))"

section \<open>Properties of the big-integer routines\<close>

lemma smod_pos_eq_mod: "0 \<le> a \<Longrightarrow> 0 \<le> b \<Longrightarrow> (a::int) smod b = a mod b"
  by (rule smod_mod_positive)

lemma js_normalize_eq_mod:
  assumes "0 < m"
  shows "((a smod m) + m) smod m = (a::int) mod m"
proof (cases "0 \<le> a")
  case True
  then have "a smod m = a mod m" using assms by (simp add: smod_mod_positive)
  moreover have "(a mod m + m) smod m = (a mod m + m) mod m"
    using assms by (intro smod_mod_positive) auto
  ultimately show ?thesis by simp
next
  case False
  then have neg: "a < 0" by simp
  have sm: "a smod m = - (((- a)) mod m)"
    using neg assms by (simp add: signed_modulo_int_def sgn_if)
  have rng: "0 \<le> ((- a) mod m)" "((- a) mod m) < m" using assms by simp_all
  have le: "((- a) mod m) \<le> m" using rng(2) by (rule less_imp_le)
  have "(a smod m + m) smod m = (a smod m + m) mod m"
    using le assms unfolding sm by (intro smod_mod_positive) simp_all
  also have "\<dots> = (- ((- a) mod m)) mod m" using sm by simp
  also have "\<dots> = a mod m" by (simp add: mod_minus_eq)
  finally show ?thesis .
qed

lemma smod_idem: "((a::int) smod m) smod m = a smod m"
proof (cases "m = 0")
  case True then show ?thesis by simp
next
  case False
  have r: "\<bar>a smod m\<bar> < \<bar>m\<bar>" using smod_int_range [where a = a and b = m] False by auto
  show ?thesis
    using r by (auto simp: signed_modulo_int_def [of "a smod m" m] sgn_if abs_if split: if_splits)
qed

lemma modPow_loop_range:
  "0 \<le> r \<Longrightarrow> r < m \<Longrightarrow> 0 \<le> b \<Longrightarrow> 0 \<le> modPow_loop r b e m \<and> modPow_loop r b e m < m"
proof (induction r b e m rule: modPow_loop.induct)
  case (1 result base exponent modulus)
  show ?case
  proof (cases "exponent > 0")
    case False
    then show ?thesis using 1(2,3) by (subst (1 2) modPow_loop.simps) simp
  next
    case True
    have m: "0 < modulus" using 1 by simp
    let ?r = "if exponent smod 2 = 1 then (result * base) smod modulus else result"
    have a: "0 \<le> ?r" "?r < modulus"
      using 1(2,3,4) m by (auto simp: smod_mod_positive)
    have b: "0 \<le> (base * base) smod modulus"
      using 1(4) m by (simp add: smod_mod_positive)
    from 1(1)[OF True a b] show ?thesis
      by (subst (1 2) modPow_loop.simps) (simp add: True)
  qed
qed

lemma modPow_loop_eq_power:
  "0 \<le> r \<Longrightarrow> 0 \<le> b \<Longrightarrow> 0 < m \<Longrightarrow> 0 < e \<Longrightarrow> modPow_loop r b e m = (r * b ^ nat e) mod m"
proof (induction r b e m rule: modPow_loop.induct)
  case (1 result base exponent modulus)
  let ?r = "if exponent smod 2 = 1 then (result * base) smod modulus else result"
  let ?b = "(base * base) smod modulus"
  let ?e = "drop_bit 1 exponent"
  have e2: "?e = exponent div 2" by (simp add: drop_bit_eq_div)
  have sm2: "exponent smod 2 = exponent mod 2" using 1(5) by (simp add: smod_mod_positive)
  have r0: "0 \<le> ?r" using 1 by (auto simp: smod_mod_positive)
  have b0: "0 \<le> ?b" using 1 by (auto simp: smod_mod_positive)
  have bb: "?b = (base * base) mod modulus" using 1 by (simp add: smod_mod_positive)
  have unf: "modPow_loop result base exponent modulus = modPow_loop ?r ?b ?e modulus"
    using 1(5) by (subst modPow_loop.simps) simp
  show ?case
  proof (cases "?e > 0")
    case True
    have ih: "modPow_loop ?r ?b ?e modulus = (?r * ?b ^ nat ?e) mod modulus"
      using 1(1)[OF 1(5) r0 b0 1(4) True] .
    have pw: "(?b ^ nat ?e) mod modulus = (base ^ (2 * nat ?e)) mod modulus"
      unfolding bb by (simp add: power_mod power_mult power2_eq_square)
    have ex: "nat exponent = 2 * nat ?e + nat (exponent mod 2)"
    proof -
      have "exponent = 2 * (exponent div 2) + exponent mod 2" by simp
      moreover have "0 \<le> exponent div 2" "0 \<le> exponent mod 2" using 1(5) by simp_all
      ultimately show ?thesis unfolding e2 by linarith
    qed
    show ?thesis
    proof (cases "exponent mod 2 = 1")
      case odd: True
      have rr: "?r = (result * base) mod modulus"
        using odd sm2 1(2,3,4) by (simp add: smod_mod_positive)
      have "(?r * ?b ^ nat ?e) mod modulus = ((result * base) mod modulus * (base ^ (2 * nat ?e) mod modulus)) mod modulus"
        unfolding rr using pw by (metis mod_mult_right_eq)
      also have "\<dots> = (result * base * base ^ (2 * nat ?e)) mod modulus"
        by (simp add: mod_mult_eq)
      also have "\<dots> = (result * base ^ nat exponent) mod modulus"
        using ex odd by (simp add: mult.assoc)
      finally show ?thesis using unf ih by simp
    next
      case even: False
      then have ev: "exponent mod 2 = 0" by presburger
      have rr: "?r = result" using ev sm2 by simp
      have "(?r * ?b ^ nat ?e) mod modulus = (result * (base ^ (2 * nat ?e) mod modulus)) mod modulus"
        unfolding rr using pw by (metis mod_mult_right_eq)
      also have "\<dots> = (result * base ^ nat exponent) mod modulus"
        using ex ev by (simp add: mod_mult_right_eq)
      finally show ?thesis using unf ih by simp
    qed
  next
    case False
    then have e1: "exponent = 1" using 1(5) e2 by presburger
    have "modPow_loop ?r ?b ?e modulus = ?r"
      using False by (subst modPow_loop.simps) simp
    then show ?thesis using unf e1 1(2,3,4) by (simp add: smod_mod_positive)
  qed
qed

lemma modExp_loop_eq: "modExp_loop r b e m = modPow_loop r b e m"
proof (induction r b e m rule: modPow_loop.induct)
  case (1 result base exponent modulus)
  show ?case
  proof (cases "exponent > 0")
    case True
    have "exponent sdiv 2 = drop_bit 1 exponent"
      using True by (simp add: signed_divide_int_def sgn_if drop_bit_eq_div)
    then show ?thesis using True 1
      by (subst modExp_loop.simps, subst modPow_loop.simps) simp
  next
    case False
    then show ?thesis by (subst modExp_loop.simps, subst modPow_loop.simps) simp
  qed
qed

lemma modExp_eq_modPow: "modExp a e m = modPow a e m"
  by (simp add: modExp_def modPow_def modExp_loop_eq)

lemma modPow_zero_exp: "modPow_loop r b 0 m = r"
  by (subst modPow_loop.simps) simp

lemma modPow_one_exp: "modPow_loop 1 (a smod m) 1 m = a smod m"
proof -
  have "(1::int) smod 2 = 1" by (simp add: signed_modulo_int_def)
  then show ?thesis
    by (subst modPow_loop.simps) (simp add: smod_idem modPow_zero_exp)
qed

text \<open>
  Claim C6 as it stands fails for a negative base. \<^verbatim>\<open>base = base % modulus\<close> keeps the
  sign of the base, so \<^verbatim>\<open>modPow(-3n, 1n, 5n)\<close> and \<^verbatim>\<open>modExp(-3n, 1n, 5n)\<close> return \<open>-3\<close>,
  where \<open>(-3) mod 5 = 2\<close>.
\<close>

theorem modPow_negative_base_counterexample:
  "(1::int) < 5 \<and> modPow (- 3) 1 5 = Inr (- 3) \<and> modExp (- 3) 1 5 = Inr (- 3) \<and>
   (- 3::int) mod 5 = 2 \<and> (- 3::int) \<noteq> 2"
proof -
  have s: "(- 3::int) smod 5 = - 3" by (simp add: signed_modulo_int_def)
  have "modPow (- 3) 1 5 = Inr (- 3)"
    using modPow_one_exp [of "- 3" 5] by (simp add: modPow_def s)
  then show ?thesis by (simp add: modExp_eq_modPow)
qed

text \<open>
  Claim C6, amended (contract of \<^verbatim>\<open>modPow\<close> and \<^verbatim>\<open>modExp\<close>). With modulus 1 the result is
  0 for every base and exponent. For every base \<open>a\<close> and modulus \<open>m > 1\<close>, exponent 0 gives
  1. For every base \<open>a \<ge> 0\<close> and modulus \<open>m > 1\<close>, exponent 1 gives \<open>a mod m\<close>; for a base
  \<open>a < 0\<close> it gives \<open>- ((- a) mod m)\<close>, the truncated remainder, which lies in \<open>(-m, 0]\<close>.
  For a non-negative base and a positive modulus the call returns a value, and it lies
  in \<open>[0, m)\<close>, whatever the exponent.
\<close>

theorem modPow_contract:
  "modPow a e 1 = Inr 0 \<and> modExp a e 1 = Inr 0 \<and>
   (1 < m \<longrightarrow>
      modPow a 0 m = Inr 1 \<and> modExp a 0 m = Inr 1 \<and>
      (0 \<le> a \<longrightarrow> modPow a 1 m = Inr (a mod m) \<and> modExp a 1 m = Inr (a mod m)) \<and>
      (a < 0 \<longrightarrow> modPow a 1 m = Inr (- ((- a) mod m)) \<and>
                   modExp a 1 m = Inr (- ((- a) mod m)) \<and>
                   - m < - ((- a) mod m) \<and> - ((- a) mod m) \<le> 0)) \<and>
   (0 \<le> a \<and> 0 < m \<longrightarrow>
      (\<exists>r. modPow a e m = Inr r \<and> modExp a e m = Inr r \<and> 0 \<le> r \<and> r < m))"
proof -
  have one: "modPow a e 1 = Inr 0" by (simp add: modPow_def)
  have zero: "modPow a 0 m = Inr 1" if "1 < m"
    using that by (simp add: modPow_def modPow_zero_exp)
  have first: "modPow a 1 m = Inr (a smod m)" if "1 < m"
    using that by (simp add: modPow_def modPow_one_exp)
  have pos: "modPow a 1 m = Inr (a mod m)" if "1 < m" "0 \<le> a"
    using that first by (simp add: smod_mod_positive)
  have neg: "modPow a 1 m = Inr (- ((- a) mod m))" if "1 < m" "a < 0"
  proof -
    have "a smod m = - ((- a) mod m)"
      using that by (simp add: signed_modulo_int_def sgn_if)
    then show ?thesis using first that by simp
  qed
  have negrange: "- m < - ((- a) mod m) \<and> - ((- a) mod m) \<le> 0" if "1 < m"
    using that by simp
  have range: "\<exists>r. modPow a e m = Inr r \<and> 0 \<le> r \<and> r < m" if "0 \<le> a" "0 < m"
  proof (cases "m = 1")
    case True
    then show ?thesis by (simp add: modPow_def)
  next
    case False
    then have m: "1 < m" using that by simp
    have "0 \<le> a smod m" using that by (simp add: smod_mod_positive)
    with m show ?thesis
      using modPow_loop_range [of 1 m "a smod m" e] by (simp add: modPow_def)
  qed
  show ?thesis
    using one zero pos neg negrange range by (simp add: modExp_eq_modPow)
qed

theorem modPow_contract_witness:
  "(1::int) < 13 \<and> (0::int) \<le> 7 \<and> modPow 7 0 13 = Inr 1 \<and> modExp 7 1 13 = Inr 7 \<and>
   (\<exists>r. modPow 7 5 13 = Inr r \<and> modExp 7 5 13 = Inr r \<and> 0 \<le> r \<and> r < 13) \<and>
   (1::int) < 5 \<and> (- 3::int) < 0 \<and> modPow (- 3) 1 5 = Inr (- 3) \<and> modExp (- 3) 1 5 = Inr (- 3)"
  using modPow_contract [of 7 5 13] modPow_contract [of "- 3" 1 5] by simp

subsection \<open>The extended Euclidean loop\<close>

lemma egcd_loop_inv:
  "m dvd (old_s * a - old_r) \<Longrightarrow> m dvd (s * a - r) \<Longrightarrow> egcd_loop old_r r old_s s = (g, x)
   \<Longrightarrow> m dvd (x * a - g) \<and> gcd old_r r = \<bar>g\<bar>"
proof (induction old_r r old_s s rule: egcd_loop.induct)
  case (1 old_r r old_s s)
  show ?case
  proof (cases "r = 0")
    case True
    then have "egcd_loop old_r r old_s s = (old_r, old_s)"
      by (subst egcd_loop.simps) simp
    with 1(2,4) True show ?thesis by simp
  next
    case False
    define q where "q = old_r sdiv r"
    have unf: "egcd_loop old_r r old_s s = egcd_loop r (old_r - q * r) s (old_s - q * s)"
      using False by (subst egcd_loop.simps) (simp add: q_def Let_def)
    have eq: "(old_s - q * s) * a - (old_r - q * r) = (old_s * a - old_r) - q * (s * a - r)"
      by (simp add: algebra_simps)
    have "m dvd (old_s * a - old_r) - q * (s * a - r)"
      using 1(2,3) by (simp add: dvd_diff)
    then have d: "m dvd ((old_s - q * s) * a - (old_r - q * r))"
      by (simp only: eq)
    have "m dvd (x * a - g) \<and> gcd r (old_r - q * r) = \<bar>g\<bar>"
      using 1(1)[OF False q_def 1(3) d] unf 1(4) by simp
    moreover have "gcd r (old_r - q * r) = gcd old_r r"
    proof -
      have "old_r - q * r = (- q) * r + old_r" by simp
      then have "gcd r (old_r - q * r) = gcd r old_r" by (simp only: gcd_add_mult)
      then show ?thesis by (simp add: gcd.commute)
    qed
    ultimately show ?thesis by simp
  qed
qed

lemma egcd_loop_nonneg:
  "0 \<le> old_r \<Longrightarrow> 0 \<le> r \<Longrightarrow> egcd_loop old_r r old_s s = (g, x) \<Longrightarrow> 0 \<le> g"
proof (induction old_r r old_s s rule: egcd_loop.induct)
  case (1 old_r r old_s s)
  show ?case
  proof (cases "r = 0")
    case True
    then have "egcd_loop old_r r old_s s = (old_r, old_s)"
      by (subst egcd_loop.simps) simp
    with 1(2,4) show ?thesis by simp
  next
    case False
    define q where "q = old_r sdiv r"
    have unf: "egcd_loop old_r r old_s s = egcd_loop r (old_r - q * r) s (old_s - q * s)"
      using False by (subst egcd_loop.simps) (simp add: q_def Let_def)
    have "old_r - q * r = old_r smod r"
      unfolding q_def by (rule minus_sdiv_mult_eq_smod)
    then have "0 \<le> old_r - q * r"
      using 1(2,3) False by (simp add: smod_mod_positive)
    from 1(1)[OF False q_def 1(3) this] unf 1(4) show ?thesis by simp
  qed
qed

lemma smod_cong_dvd: "m dvd (a smod m - (a::int))"
proof -
  have "a smod m - a = - (a sdiv m) * m"
    using sdiv_mult_smod_eq [of a m] by (simp add: algebra_simps)
  then show ?thesis by simp
qed

lemma js_normalize_dvd: "m dvd (((a smod m) + m) smod m - (a::int))"
proof -
  have "m dvd (((a smod m) + m) smod m - ((a smod m) + m))" by (rule smod_cong_dvd)
  moreover have "m dvd ((a smod m) + m - a)"
  proof -
    have e: "(a smod m) + m - a = (a smod m - a) + m" by simp
    show ?thesis unfolding e by (rule dvd_add [OF smod_cong_dvd dvd_refl])
  qed
  ultimately have "m dvd (((a smod m) + m) smod m - ((a smod m) + m)) + ((a smod m) + m - a)"
    by (rule dvd_add)
  then show ?thesis by simp
qed

lemma gcd_cong_dvd:
  assumes "m dvd (b - (a::int))"
  shows "gcd b m = gcd a m"
proof -
  from assms obtain k where k: "b - a = m * k" by (auto simp: dvd_def)
  then have "b = k * m + a" by (simp add: algebra_simps)
  then have "gcd m b = gcd m a" by (simp only: gcd_add_mult)
  then show ?thesis by (simp add: gcd.commute)
qed

lemma modInverse_raises:
  assumes "gcd a m \<noteq> 1"
  shows "\<exists>e. modInverse a m = Inl e"
proof -
  have m1: "m \<noteq> 1" using assms by auto
  show ?thesis
  proof (cases "m = 0")
    case True
    then show ?thesis by (simp add: modInverse_def)
  next
    case False
    define a' where "a' = ((a smod m) + m) smod m"
    obtain g x where gx: "egcd_loop a' m 1 0 = (g, x)" by (cases "egcd_loop a' m 1 0")
    have "gcd a' m = \<bar>g\<bar>"
      using egcd_loop_inv [of m 1 a' a' 0 m g x] gx by simp
    moreover have "gcd a' m = gcd a m"
      unfolding a'_def by (rule gcd_cong_dvd) (rule js_normalize_dvd)
    ultimately have "g \<noteq> 1" using assms by auto
    then show ?thesis
      using m1 False gx by (simp add: modInverse_def Let_def a'_def [symmetric])
  qed
qed

lemma modInverse_returns:
  assumes m: "1 < m" and g1: "gcd a m = 1"
  shows "\<exists>r. modInverse a m = Inr r \<and> 0 \<le> r \<and> r < m \<and> (a * r) mod m = 1"
proof -
  define a' where "a' = ((a smod m) + m) smod m"
  have a'mod: "a' = a mod m" unfolding a'_def using m by (simp add: js_normalize_eq_mod)
  obtain g x where gx: "egcd_loop a' m 1 0 = (g, x)" by (cases "egcd_loop a' m 1 0")
  have inv: "m dvd (x * a' - g)" "gcd a' m = \<bar>g\<bar>"
    using egcd_loop_inv [of m 1 a' a' 0 m g x] gx by simp_all
  have "0 \<le> g"
    using egcd_loop_nonneg [of a' m 1 0 g x] gx a'mod m by simp
  moreover have "gcd a' m = 1"
    using g1 gcd_red_int [of a m] a'mod by (simp add: gcd.commute)
  ultimately have g: "g = 1" using inv(2) by simp
  define r where "r = (x smod m + m) smod m"
  have rmod: "r = x mod m" unfolding r_def using m by (simp add: js_normalize_eq_mod)
  have res: "modInverse a m = Inr r"
    using m gx g by (simp add: modInverse_def Let_def a'_def [symmetric] r_def)
  have "(x * a') mod m = 1 mod m"
    using inv(1) g by (simp add: mod_eq_dvd_iff)
  then have "(x * a') mod m = 1" using m by simp
  moreover have "(a * r) mod m = (x * a') mod m"
    unfolding rmod a'mod by (metis mod_mult_left_eq mod_mult_right_eq mult.commute)
  ultimately show ?thesis using res rmod m by simp
qed

text \<open>
  Claim C5 as it stands fails at the modulus 1, which \<^verbatim>\<open>modInverse\<close> answers with 0
  through its first line: \<open>gcd 5 1 = 1\<close>, yet \<open>(5 * 0) mod 1 = 0\<close>, not 1.
\<close>

theorem modInverse_modulus_one_counterexample:
  "gcd (5::int) 1 = 1 \<and> modInverse 5 1 = Inr 0 \<and> \<not> ((5 * 0) mod (1::int) = 1)"
  by (simp add: modInverse_def)

text \<open>
  Claim C5, amended (contract of \<^verbatim>\<open>modInverse\<close>). For every \<open>a\<close> and every modulus
  \<open>m > 1\<close> with \<open>gcd a m = 1\<close> the call returns some \<open>r\<close> in \<open>[0, m)\<close> with
  \<open>(a * r) mod m = 1\<close> (and, for \<open>a \<ge> 0\<close>, also with the code's own remainder
  \<open>(a * r) % m = 1\<close>). For every \<open>a\<close> and \<open>m\<close> with \<open>gcd a m \<noteq> 1\<close> the call raises an error
  and returns no value. With the modulus 1 the call returns 0.
\<close>

theorem modInverse_contract:
  "(1 < m \<and> gcd a m = 1 \<longrightarrow>
      (\<exists>r. modInverse a m = Inr r \<and> 0 \<le> r \<and> r < m \<and> (a * r) mod m = 1 \<and>
           (0 \<le> a \<longrightarrow> (a * r) smod m = 1))) \<and>
   (gcd a m \<noteq> 1 \<longrightarrow> (\<exists>e. modInverse a m = Inl e)) \<and>
   modInverse a 1 = Inr 0"
proof -
  have A: "1 < m \<and> gcd a m = 1 \<longrightarrow>
      (\<exists>r. modInverse a m = Inr r \<and> 0 \<le> r \<and> r < m \<and> (a * r) mod m = 1 \<and>
           (0 \<le> a \<longrightarrow> (a * r) smod m = 1))"
  proof (intro impI, elim conjE)
    assume m: "1 < m" and g: "gcd a m = 1"
    from modInverse_returns [OF m g] obtain r where
      r: "modInverse a m = Inr r" "0 \<le> r" "r < m" "(a * r) mod m = 1" by blast
    have "(a * r) smod m = 1" if "0 \<le> a"
      using that r m by (simp add: smod_mod_positive)
    with r show "\<exists>r. modInverse a m = Inr r \<and> 0 \<le> r \<and> r < m \<and> (a * r) mod m = 1 \<and>
           (0 \<le> a \<longrightarrow> (a * r) smod m = 1)" by blast
  qed
  have B: "gcd a m \<noteq> 1 \<longrightarrow> (\<exists>e. modInverse a m = Inl e)"
    using modInverse_raises [of a m] by blast
  have C: "modInverse a 1 = Inr 0" by (simp add: modInverse_def)
  show ?thesis by (intro conjI A B C)
qed

theorem modInverse_contract_witness:
  "(1::int) < 7 \<and> gcd (3::int) 7 = 1 \<and> modInverse 3 7 = Inr 5 \<and>
   (\<exists>r. modInverse 3 7 = Inr r \<and> 0 \<le> r \<and> r < 7 \<and> (3 * r) mod 7 = 1 \<and> (3 * r) smod 7 = 1) \<and>
   gcd (4::int) 8 \<noteq> 1 \<and> (\<exists>e. modInverse 4 8 = Inl e)"
proof -
  have h: "(1::int) < 7" "(0::int) \<le> 3" by simp_all
  have g: "gcd (3::int) 7 = 1" "gcd (4::int) 8 \<noteq> 1" by code_simp+
  have v: "modInverse 3 7 = Inr 5"
    by (simp add: modInverse_def egcd_loop.simps signed_modulo_int_def signed_divide_int_def)
  show ?thesis
    using h g v modInverse_contract [of 7 3] modInverse_contract [of 8 4] by simp
qed

section \<open>Properties of the byte conversions\<close>

lemma shift_or_byte: "push_bit 8 (r::int) OR uint (b::byte) = r * 256 + uint b"
proof -
  have "push_bit 8 r OR uint b = push_bit 8 r + uint b"
  proof (rule disjunctive_add [symmetric])
    fix n
    show "\<not> bit (push_bit 8 r) n \<or> \<not> bit (uint b) n"
      by (cases "n < 8") (auto simp: bit_push_bit_iff bit_uint_iff dest: bit_imp_le_length)
  qed
  then show ?thesis by (simp add: push_bit_eq_mult)
qed

lemma bytesToBigInt_Nil [simp]: "bytesToBigInt [] = 0"
  by (simp add: bytesToBigInt_def)

lemma bytesToBigInt_snoc: "bytesToBigInt (bs @ [b]) = bytesToBigInt bs * 256 + uint b"
  by (simp add: bytesToBigInt_def shift_or_byte)

lemma bytesToBigInt_nonneg: "0 \<le> bytesToBigInt bs"
  by (induction bs rule: rev_induct) (simp_all add: bytesToBigInt_snoc)

lemma bytesToBigInt_eq_0_iff: "bytesToBigInt bs = 0 \<longleftrightarrow> (\<forall>b \<in> set bs. b = 0)"
proof (induction bs rule: rev_induct)
  case Nil
  show ?case by simp
next
  case (snoc b bs)
  have "0 \<le> bytesToBigInt bs" "0 \<le> uint b" by (simp_all add: bytesToBigInt_nonneg)
  then have "bytesToBigInt bs * 256 + uint b = 0 \<longleftrightarrow> bytesToBigInt bs = 0 \<and> uint b = 0"
    by linarith
  with snoc show ?case by (auto simp: bytesToBigInt_snoc uint_0_iff)
qed

lemma unshift_loop_nonpos: "v \<le> 0 \<Longrightarrow> unshift_loop v acc = acc"
  by (subst unshift_loop.simps) simp

lemma and_255: "(v::int) AND 0xFF = v mod 256"
proof -
  have "(0xFF::int) = mask 8" by (simp add: mask_eq_exp_minus_1)
  then have "v AND 0xFF = take_bit 8 v" by (simp only: take_bit_eq_mask)
  then show ?thesis by (simp add: take_bit_eq_mod)
qed

lemma unshift_loop_pos:
  "0 < v \<Longrightarrow> unshift_loop v acc = unshift_loop (v div 256) (word_of_int (v mod 256) # acc)"
  by (subst unshift_loop.simps) (simp add: drop_bit_eq_div and_255)

lemma unshift_loop_acc: "unshift_loop v acc = unshift_loop v [] @ acc"
proof (induction "nat v" arbitrary: v acc rule: less_induct)
  case less
  show ?case
  proof (cases "0 < v")
    case True
    then have d: "nat (v div 256) < nat v" by simp
    have "unshift_loop v acc = unshift_loop (v div 256) [] @ (word_of_int (v mod 256) # acc)"
      using less [OF d, of "word_of_int (v mod 256) # acc"]
      by (simp only: unshift_loop_pos [OF True])
    moreover have "unshift_loop v [] = unshift_loop (v div 256) [] @ [word_of_int (v mod 256)]"
      using less [OF d, of "[word_of_int (v mod 256)]"]
      by (simp only: unshift_loop_pos [OF True])
    ultimately show ?thesis by simp
  next
    case False
    then show ?thesis by (simp add: unshift_loop_nonpos)
  qed
qed

lemma unshift_loop_step:
  "0 < v \<Longrightarrow> unshift_loop v [] = unshift_loop (v div 256) [] @ [word_of_int (v mod 256)]"
  using unshift_loop_acc [of "v div 256" "[word_of_int (v mod 256)]"]
  by (simp only: unshift_loop_pos)

lemma unshift_loop_bytesToBigInt:
  "unshift_loop (bytesToBigInt B) [] = dropWhile (\<lambda>b. b = 0) B"
proof (induction B rule: rev_induct)
  case Nil
  show ?case by (simp add: unshift_loop_nonpos)
next
  case (snoc b B)
  let ?v = "bytesToBigInt B * 256 + uint b"
  have v0: "0 \<le> bytesToBigInt B" by (rule bytesToBigInt_nonneg)
  have ub: "0 \<le> uint b" "uint b < 256" using uint_lt2p [of b] by simp_all
  have d0: "uint b div 256 = 0" using ub by (intro div_pos_pos_trivial)
  have m0: "uint b mod 256 = uint b" using ub by (intro mod_pos_pos_trivial)
  have dv: "?v div 256 = bytesToBigInt B" by (simp add: d0)
  have md: "?v mod 256 = uint b" by (simp add: m0)
  show ?case
  proof (cases "?v = 0")
    case True
    then have "bytesToBigInt (B @ [b]) = 0" by (simp add: bytesToBigInt_snoc)
    then have z: "\<forall>x \<in> set (B @ [b]). x = 0" by (simp only: bytesToBigInt_eq_0_iff)
    then have "dropWhile (\<lambda>b. b = 0) (B @ [b]) = []" by (simp only: dropWhile_eq_Nil_conv)
    then show ?thesis using True by (simp add: bytesToBigInt_snoc unshift_loop_nonpos)
  next
    case False
    then have pos: "0 < ?v" using v0 ub(1) by linarith
    have "unshift_loop ?v [] = unshift_loop (bytesToBigInt B) [] @ [b]"
      using unshift_loop_step [OF pos] by (simp only: dv md word_of_int_uint)
    also have "\<dots> = dropWhile (\<lambda>b. b = 0) B @ [b]" by (simp only: snoc)
    also have "\<dots> = dropWhile (\<lambda>b. b = 0) (B @ [b])"
    proof (cases "\<forall>x \<in> set B. x = 0")
      case True
      then have "bytesToBigInt B = 0" by (simp only: bytesToBigInt_eq_0_iff)
      then have "b \<noteq> 0" using \<open>?v \<noteq> 0\<close> by (auto simp: uint_0_iff)
      then show ?thesis using True by (simp add: dropWhile_append)
    next
      case False
      then show ?thesis by (simp add: dropWhile_append)
    qed
    finally show ?thesis by (simp add: bytesToBigInt_snoc)
  qed
qed



lemma fallback_byte_roundtrip: "ucast ((ucast (b::byte) :: 16 word) AND 0xff) = b"
proof -
  have "(0xff::16 word) = mask 8" by (simp add: mask_eq_exp_minus_1)
  then have "(ucast b :: 16 word) AND 0xff = take_bit 8 (ucast b :: 16 word)"
    by (simp only: take_bit_eq_mask)
  also have "\<dots> = ucast b"
    by (rule bit_word_eqI) (auto simp: bit_take_bit_iff bit_ucast_iff dest: bit_imp_le_length)
  finally show ?thesis
    by (simp add: ucast_down_ucast_id is_down)
qed

lemma fallback_codec_roundtrip:
  "TextEncoder env = None \<Longrightarrow> TextDecoder env = None
   \<Longrightarrow> stringToBytes env (bytesToString env bs) = bs"
  by (simp add: stringToBytes_def bytesToString_def fallback_byte_roundtrip map_idI)

section \<open>ElGamal round trips\<close>

lemma modPow_eq_power:
  assumes "0 \<le> a" "1 < m" "0 \<le> e"
  shows "modPow a e m = Inr (a ^ nat e mod m)"
proof (cases "e = 0")
  case True
  then show ?thesis using assms by (simp add: modPow_def modPow_zero_exp)
next
  case False
  then have e: "0 < e" using assms by simp
  have b: "a smod m = a mod m" using assms by (simp add: smod_mod_positive)
  have "modPow_loop 1 (a mod m) e m = (1 * (a mod m) ^ nat e) mod m"
    using assms e by (intro modPow_loop_eq_power) simp_all
  then show ?thesis using assms by (simp add: modPow_def b power_mod)
qed

lemma generateRandomBigInt_result:
  assumes "generateRandomBigInt maxv rnd = Some r"
  shows "case r of Inl e \<Rightarrow> True | Inr (k, rnd') \<Rightarrow> 0 < k"
proof (rule generateRandomBigInt.raw_induct
    [where P = "\<lambda>maxv rnd r. case r of Inl e \<Rightarrow> True | Inr (k, rnd') \<Rightarrow> 0 < k", OF _ assms])
  fix f :: "int \<Rightarrow> rnd \<Rightarrow> (error + int \<times> rnd) option" and maxv rnd r
  assume ih: "\<And>maxv rnd r. f maxv rnd = Some r
      \<Longrightarrow> case r of Inl e \<Rightarrow> True | Inr (k, rnd') \<Rightarrow> 0 < k"
    and step: "(let bitLength = getBitLength maxv; byteLength = (bitLength + 7) div 8;
          randomBytes = fst (getRandomBytes byteLength rnd);
          rnd' = snd (getRandomBytes byteLength rnd);
          result = bytesToBigInt randomBytes
      in if maxv = 0 then Some (Inl RangeError)
         else let result = result smod maxv
              in if result \<le> 0 then f maxv rnd'
                 else Some (Inr (result, rnd'))) = Some r"
  show "case r of Inl e \<Rightarrow> True | Inr (k, rnd') \<Rightarrow> 0 < k"
    using step ih by (auto simp: Let_def split: if_splits)
qed

lemma generateRandomBigInt_positive:
  "generateRandomBigInt maxv rnd = Some (Inr (k, rnd')) \<Longrightarrow> 0 < k"
  using generateRandomBigInt_result [of maxv rnd "Inr (k, rnd')"] by simp

lemma elgamal_integer_roundtrip:
  assumes P: "odd P" "1 < P" and M: "0 \<le> M" "M < P" and k: "0 < k" and x: "0 < x"
    and y: "modPow 2 x P = Inr y"
    and c1: "modPow 2 k P = Inr c1"
    and s: "modPow y k P = Inr s"
  shows "decrypt_single env (Pair c1 ((M * s) smod P)) \<lparr>sk_x = x, sk_p = P\<rparr>
           = Inr (bigIntToText env M)"
proof -
  have yv: "y = 2 ^ nat x mod P" using y modPow_eq_power [of 2 P x] P x by simp
  have y0: "0 \<le> y" using yv P by simp
  have c1v: "c1 = 2 ^ nat k mod P" using c1 modPow_eq_power [of 2 P k] P k by simp
  have c10: "0 \<le> c1" using c1v P by simp
  have sv: "s = y ^ nat k mod P" using s modPow_eq_power [of y P k] P k y0 by simp
  have s0: "0 \<le> s" using sv P by simp
  have s1: "s = 2 ^ (nat x * nat k) mod P"
    unfolding sv yv by (simp add: power_mod power_mult)
  have s2: "modPow c1 x P = Inr s"
    using modPow_eq_power [of c1 P x] P x c10
    unfolding c1v s1 by (simp add: power_mod power_mult [symmetric] mult.commute)
  have "coprime (2::int) P" using P(1) by simp
  then have "coprime ((2::int) ^ (nat x * nat k)) P" by simp
  then have "gcd ((2::int) ^ (nat x * nat k)) P = 1" by simp
  then have "gcd s P = 1"
    unfolding s1 using gcd_red_int [of "2 ^ (nat x * nat k)" P] by (simp add: gcd.commute)
  from modInverse_returns [OF P(2) this] obtain r where
    r: "modInverse s P = Inr r" "0 \<le> r" "r < P" "(s * r) mod P = 1" by blast
  have c2: "(M * s) smod P = (M * s) mod P"
    using M s0 P by (simp add: smod_mod_positive)
  have "((M * s) mod P * r) smod P = ((M * s) mod P * r) mod P"
    using r P by (simp add: smod_mod_positive)
  also have "\<dots> = (M * ((s * r) mod P)) mod P"
    by (simp add: mod_mult_left_eq mod_mult_right_eq mult.assoc)
  also have "\<dots> = M" using r M by simp
  finally have "((M * s) smod P * r) smod P = M" unfolding c2 .
  then show ?thesis
    using s2 r(1) by (simp add: decrypt_single_def)
qed

lemma binary_digits_bound: "2 ^ d \<le> n \<Longrightarrow> n < 2 ^ Suc d \<Longrightarrow> binary_digits n = Suc d"
proof (induction d arbitrary: n)
  case 0
  then show ?case by (subst binary_digits.simps) simp
next
  case (Suc d)
  have "2 ^ d \<le> n div 2" using Suc.prems(1) by simp
  moreover have "n div 2 < 2 ^ Suc d" using Suc.prems(2) by simp
  ultimately have "binary_digits (n div 2) = Suc d" by (rule Suc.IH)
  moreover have p: "(1::nat) \<le> 2 ^ d" by simp
  have "\<not> n < 2" using p Suc.prems(1) unfolding power_Suc by linarith
  ultimately show ?case by (subst binary_digits.simps) simp
qed

lemma decimal_digits_bound: "10 ^ d \<le> n \<Longrightarrow> n < 10 ^ Suc d \<Longrightarrow> decimal_digits n = Suc d"
proof (induction d arbitrary: n)
  case 0
  then show ?case by (subst decimal_digits.simps) simp
next
  case (Suc d)
  have "10 ^ d \<le> n div 10" using Suc.prems(1) by simp
  moreover have "n div 10 < 10 ^ Suc d" using Suc.prems(2) by simp
  ultimately have "decimal_digits (n div 10) = Suc d" by (rule Suc.IH)
  moreover have p: "(1::nat) \<le> 10 ^ d" by simp
  have "\<not> n < 10" using p Suc.prems(1) unfolding power_Suc by linarith
  ultimately show ?case by (subst decimal_digits.simps) simp
qed

lemma BIG_PRIME_odd: "odd BIG_PRIME"
  unfolding BIG_PRIME_def by simp

lemma BIG_PRIME_lower: "2 ^ 2047 < BIG_PRIME"
  unfolding BIG_PRIME_def by simp

lemma BIG_PRIME_upper: "BIG_PRIME < 2 ^ 2048"
  unfolding BIG_PRIME_def by simp

lemma BIG_PRIME_gt_1: "1 < BIG_PRIME"
  unfolding BIG_PRIME_def by simp

lemma generateKeys_valid:
  assumes "generateKeys rnd = Some (Inr ((pub, priv), rnd1))"
  shows "\<exists>x y. 0 < x \<and> modPow 2 x BIG_PRIME = Inr y \<and>
           pub = \<lparr>pk_y = y, pk_g = 2, pk_p = BIG_PRIME\<rparr> \<and> priv = \<lparr>sk_x = x, sk_p = BIG_PRIME\<rparr>"
  using assms
  by (auto simp: generateKeys_def GENERATOR_def split: option.splits sum.splits
      dest: generateRandomBigInt_positive)

lemma encrypt_single_shape:
  assumes "encrypt_single M pub rnd = Some (Inr (res, rnd'))"
  shows "\<exists>k c1 s. 0 < k \<and> modPow (pk_g pub) k (pk_p pub) = Inr c1 \<and>
           modPow (pk_y pub) k (pk_p pub) = Inr s \<and>
           res = \<lparr>ciphertext = Pair c1 ((M * s) smod pk_p pub), ephemeralKey = Some k,
                   isBlocked = False, blockCount = None\<rparr>"
  using assms
  by (auto simp: encrypt_single_def Let_def split: option.splits sum.splits
      dest: generateRandomBigInt_positive)

lemma encrypt_small:
  assumes "textToBigInt env message < pk_p pub"
  shows "encrypt (Suc d) env message pub rnd =
           (case encrypt_single (textToBigInt env message) pub rnd of
              None \<Rightarrow> None
            | Some (Inl e) \<Rightarrow> Some (Inl ElGamalEncryptFailed)
            | Some (Inr r) \<Rightarrow> Some (Inr r))"
  using assms by (simp add: encrypt.simps Let_def)

lemma textToBigInt_nonneg: "0 \<le> textToBigInt env message"
  by (simp add: textToBigInt_def bytesToBigInt_nonneg)

lemma elgamal_single_roundtrip:
  assumes keys: "generateKeys rnd = Some (Inr ((pub, priv), rnd1))"
    and small: "textToBigInt env message < BIG_PRIME"
    and enc: "encrypt (Suc d) env message pub rnd2 = Some (Inr (res, rnd3))"
  shows "\<not> isBlocked res \<and>
         decrypt_single env (ciphertext res) priv = Inr (bigIntToText env (textToBigInt env message)) \<and>
         decrypt env res priv = Inr (bigIntToText env (textToBigInt env message))"
proof -
  from generateKeys_valid [OF keys] obtain x y where
    x: "0 < x" and y: "modPow 2 x BIG_PRIME = Inr y"
    and pub: "pub = \<lparr>pk_y = y, pk_g = 2, pk_p = BIG_PRIME\<rparr>"
    and priv: "priv = \<lparr>sk_x = x, sk_p = BIG_PRIME\<rparr>" by blast
  let ?M = "textToBigInt env message"
  have "encrypt_single ?M pub rnd2 = Some (Inr (res, rnd3))"
    using enc small pub by (simp add: encrypt_small split: option.splits sum.splits)
  from encrypt_single_shape [OF this] obtain k c1 s where
    k: "0 < k" and c1: "modPow 2 k BIG_PRIME = Inr c1" and s: "modPow y k BIG_PRIME = Inr s"
    and res: "res = \<lparr>ciphertext = Pair c1 ((?M * s) smod BIG_PRIME), ephemeralKey = Some k,
                   isBlocked = False, blockCount = None\<rparr>"
    unfolding pub by auto
  have "decrypt_single env (Pair c1 ((?M * s) smod BIG_PRIME)) \<lparr>sk_x = x, sk_p = BIG_PRIME\<rparr>
          = Inr (bigIntToText env ?M)"
    by (rule elgamal_integer_roundtrip
        [OF BIG_PRIME_odd BIG_PRIME_gt_1 textToBigInt_nonneg small k x y c1 s])
  then show ?thesis by (simp add: decrypt_def res priv)
qed

lemma elgamal_single_strips_zeros:
  assumes keys: "generateKeys rnd = Some (Inr ((pub, priv), rnd1))"
    and small: "textToBigInt env message < BIG_PRIME"
    and enc: "encrypt (Suc d) env message pub rnd2 = Some (Inr (res, rnd3))"
  shows "decrypt env res priv
           = Inr (bytesToString env (dropWhile (\<lambda>b. b = 0) (stringToBytes env message)))"
  using elgamal_single_roundtrip [OF keys small enc]
  by (simp add: textToBigInt_def bigIntToText_def unshift_loop_bytesToBigInt)

lemma rnd_one_draw: "getRandomBytes 256 rnd_one = (replicate 255 0 @ [1], rnd_one)"
proof -
  have "map rnd_one [0..<256] = replicate 255 0 @ [1]"
    by (rule nth_equalityI) (auto simp: nth_append rnd_one_def less_Suc_eq)
  moreover have "(\<lambda>i. rnd_one (i + 256)) = rnd_one"
    by (rule ext) (simp add: rnd_one_def)
  ultimately show ?thesis by (simp add: getRandomBytes_def)
qed

lemma bytesToBigInt_one: "bytesToBigInt (replicate n 0 @ [1]) = 1"
proof -
  have "bytesToBigInt (replicate n 0) = 0" by (simp add: bytesToBigInt_eq_0_iff)
  then show ?thesis by (simp add: bytesToBigInt_snoc)
qed

lemma getBitLength_BIG_PRIME: "getBitLength (BIG_PRIME - 1) = 2048"
proof -
  have "2 ^ 2047 \<le> BIG_PRIME - 1" using BIG_PRIME_lower by simp
  then have a: "2 ^ 2047 \<le> nat (BIG_PRIME - 1)"
    by (simp add: le_nat_iff)
  have "BIG_PRIME - 1 < 2 ^ 2048" using BIG_PRIME_upper by simp
  then have b: "nat (BIG_PRIME - 1) < 2 ^ Suc 2047"
    by (simp add: nat_less_iff)
  have "0 \<le> BIG_PRIME - 1" using BIG_PRIME_gt_1 by simp
  then show ?thesis
    using binary_digits_bound [OF a b] by (simp add: getBitLength_def)
qed

lemma generateRandomBigInt_rnd_one:
  "generateRandomBigInt (BIG_PRIME - 1) rnd_one = Some (Inr (1, rnd_one))"
proof -
  have m: "1 < BIG_PRIME - 1" unfolding BIG_PRIME_def by simp
  then have s: "1 smod (BIG_PRIME - 1) = 1" by (simp add: smod_mod_positive)
  have n: "(2048 + 7) div 8 = (256::nat)" by simp
  show ?thesis
    using m
    by (subst generateRandomBigInt.simps)
       (simp add: getBitLength_BIG_PRIME n rnd_one_draw bytesToBigInt_one s Let_def)
qed

lemma modPow_2_1: "modPow 2 1 BIG_PRIME = Inr 2"
proof -
  have "(2::int) mod BIG_PRIME = 2" unfolding BIG_PRIME_def by simp
  then show ?thesis using modPow_eq_power [of 2 BIG_PRIME 1] BIG_PRIME_gt_1 by simp
qed

lemma generateKeys_rnd_one: "generateKeys rnd_one = Some (Inr ((pk_one, sk_one), rnd_one))"
  by (simp add: generateKeys_def generateRandomBigInt_rnd_one GENERATOR_def modPow_2_1
      pk_one_def sk_one_def)

lemma encrypt_rnd_one:
  assumes "textToBigInt env message < BIG_PRIME"
  shows "encrypt (Suc d) env message pk_one rnd_one =
           Some (Inr (\<lparr>ciphertext = Pair 2 ((textToBigInt env message * 2) smod BIG_PRIME),
                        ephemeralKey = Some 1, isBlocked = False, blockCount = None\<rparr>, rnd_one))"
  using assms
  by (simp add: encrypt_small pk_one_def encrypt_single_def generateRandomBigInt_rnd_one modPow_2_1)

lemma decrypt_blocks_append:
  "decrypt_blocks env (xs @ ys) priv t =
     (case decrypt_blocks env xs priv t of
        Inl e \<Rightarrow> Inl e
      | Inr t' \<Rightarrow> decrypt_blocks env ys priv t')"
  by (induction xs arbitrary: t) (simp_all split: sum.splits)

lemma encrypt_blocks_roundtrip:
  assumes keys: "generateKeys rnd = Some (Inr ((pub, priv), rnd1))"
    and small: "\<forall>b \<in> set blocks. textToBigInt env (bytesToString env b) < BIG_PRIME"
    and enc: "encrypt_blocks (\<lambda>m. encrypt (Suc d) env m pub) env blocks acc rnd2
                = Some (Inr (cs, rnd3))"
  shows "\<exists>new. cs = acc @ new \<and>
           (\<forall>t. decrypt_blocks env new priv t =
              Inr (t @ concat (map (\<lambda>b. bigIntToText env (textToBigInt env (bytesToString env b)))
                                 blocks)))"
  using small enc
proof (induction blocks arbitrary: acc rnd2)
  case Nil
  then show ?case by simp
next
  case (Cons block blocks)
  let ?m = "bytesToString env block"
  from Cons.prems(2) obtain r rnd' where
    r: "encrypt (Suc d) env ?m pub rnd2 = Some (Inr (r, rnd'))"
    and rest: "encrypt_blocks (\<lambda>m. encrypt (Suc d) env m pub) env blocks
                 (acc @ [ciphertext r]) rnd' = Some (Inr (cs, rnd3))"
    by (auto simp: Let_def split: option.splits sum.splits)
  have sm: "textToBigInt env ?m < BIG_PRIME" using Cons.prems(1) by simp
  have one: "decrypt_single env (ciphertext r) priv = Inr (bigIntToText env (textToBigInt env ?m))"
    using elgamal_single_roundtrip [OF keys sm r] by simp
  have "\<forall>b \<in> set blocks. textToBigInt env (bytesToString env b) < BIG_PRIME"
    using Cons.prems(1) by simp
  from Cons.IH [OF this rest] obtain new where
    new: "cs = (acc @ [ciphertext r]) @ new"
      "\<forall>t. decrypt_blocks env new priv t =
          Inr (t @ concat (map (\<lambda>b. bigIntToText env (textToBigInt env (bytesToString env b)))
                             blocks))"
    by blast
  have "cs = acc @ (ciphertext r # new)" using new(1) by simp
  moreover have "\<forall>t. decrypt_blocks env (ciphertext r # new) priv t =
      Inr (t @ concat (map (\<lambda>b. bigIntToText env (textToBigInt env (bytesToString env b)))
                         (block # blocks)))"
    using one new(2) by simp
  ultimately show ?case by blast
qed

lemma encrypt_blocks_rnd_one:
  assumes "\<forall>b \<in> set blocks. textToBigInt env (bytesToString env b) < BIG_PRIME"
  shows "\<exists>cs. encrypt_blocks (\<lambda>m. encrypt (Suc d) env m pk_one) env blocks acc rnd_one
                = Some (Inr (cs, rnd_one))"
  using assms
proof (induction blocks arbitrary: acc)
  case Nil
  then show ?case by simp
next
  case (Cons block blocks)
  have sm: "textToBigInt env (bytesToString env block) < BIG_PRIME" using Cons.prems by simp
  have "\<forall>b \<in> set blocks. textToBigInt env (bytesToString env b) < BIG_PRIME"
    using Cons.prems by simp
  from Cons.IH [OF this] show ?case
    by (simp add: encrypt_rnd_one [OF sm])
qed

lemma bytesToBigInt_Cons:
  "bytesToBigInt (b # bs) = uint b * 256 ^ length bs + bytesToBigInt bs"
proof (induction bs rule: rev_induct)
  case Nil
  show ?case using bytesToBigInt_snoc [of "[]" b] by simp
next
  case (snoc x xs)
  have "bytesToBigInt (b # xs @ [x]) = bytesToBigInt ((b # xs) @ [x])" by simp
  also have "\<dots> = bytesToBigInt (b # xs) * 256 + uint x" by (rule bytesToBigInt_snoc)
  finally show ?case using snoc by (simp add: bytesToBigInt_snoc algebra_simps)
qed

lemma bytesToBigInt_upper: "bytesToBigInt bs < 256 ^ length bs"
proof (induction bs rule: rev_induct)
  case Nil
  show ?case by simp
next
  case (snoc x xs)
  have "uint x < 256" using uint_lt2p [of x] by simp
  moreover have "bytesToBigInt xs + 1 \<le> 256 ^ length xs" using snoc by simp
  then have "(bytesToBigInt xs + 1) * 256 \<le> 256 ^ length xs * 256"
    by (rule mult_right_mono) simp
  ultimately show ?case by (simp add: bytesToBigInt_snoc algebra_simps)
qed

lemma split_loop_two_blocks:
  "length bs = 308 \<Longrightarrow> split_loop bs 154 0 = [take 154 bs, drop 154 bs]"
  by (subst split_loop.simps, subst split_loop.simps, subst split_loop.simps) simp

lemma toString_length_BIG_PRIME: "toString_length BIG_PRIME = 617"
proof -
  have a: "10 ^ 616 \<le> nat BIG_PRIME"
    unfolding BIG_PRIME_def by simp
  have b: "nat BIG_PRIME < 10 ^ Suc 616"
    unfolding BIG_PRIME_def by simp
  have "0 \<le> BIG_PRIME" using BIG_PRIME_gt_1 by simp
  then show ?thesis
    using decimal_digits_bound [OF a b] by (simp add: toString_length_def)
qed

lemma no_codec_roundtrip: "stringToBytes no_codec (bytesToString no_codec bs) = bs"
  by (rule fallback_codec_roundtrip) (simp_all add: no_codec_def)

lemma no_codec_block_text:
  "bigIntToText no_codec (textToBigInt no_codec (bytesToString no_codec b))
     = bytesToString no_codec (dropWhile (\<lambda>b. b = 0) b)"
  by (simp add: textToBigInt_def bigIntToText_def no_codec_roundtrip unshift_loop_bytesToBigInt)

lemma no_codec_block_small:
  assumes "length b \<le> 154"
  shows "textToBigInt no_codec (bytesToString no_codec b) < BIG_PRIME"
proof -
  have "bytesToBigInt b < 256 ^ length b" by (rule bytesToBigInt_upper)
  also have "(256::int) ^ length b \<le> 256 ^ 154"
    using assms by (intro power_increasing) simp_all
  also have "(256::int) ^ 154 < BIG_PRIME" unfolding BIG_PRIME_def by simp
  finally show ?thesis by (simp add: textToBigInt_def no_codec_roundtrip)
qed

lemma block_message_bytes:
  "stringToBytes no_codec block_message = replicate 154 0x61 @ [0] @ replicate 153 0x61"
  by (simp add: stringToBytes_def no_codec_def block_message_def)

lemma block_message_large: "BIG_PRIME \<le> textToBigInt no_codec block_message"
proof -
  have "replicate 154 0x61 @ [0] @ replicate 153 (0x61::byte)
          = 0x61 # (replicate 153 0x61 @ [0] @ replicate 153 0x61)"
    by (simp add: replicate_Suc [symmetric] del: replicate_Suc)
  then have "textToBigInt no_codec block_message
          = uint (0x61::byte) * 256 ^ 307
            + bytesToBigInt (replicate 153 0x61 @ [0] @ replicate 153 0x61)"
    by (simp add: textToBigInt_def block_message_bytes bytesToBigInt_Cons)
  moreover have "0 \<le> bytesToBigInt (replicate 153 0x61 @ [0] @ replicate 153 0x61)"
    by (rule bytesToBigInt_nonneg)
  moreover have "BIG_PRIME \<le> uint (0x61::byte) * 256 ^ 307"
    unfolding BIG_PRIME_def by simp
  ultimately show ?thesis by linarith
qed

lemma text_zero_a_value: "textToBigInt no_codec [0, 0x61] = 97"
  by code_simp

lemma text_a_decoded: "bigIntToText no_codec 97 = [0x61]"
  by code_simp

text \<open>
  Claim C1 fails on ElGamal. The message of the two characters U+0000 and \<open>a\<close> encodes
  to the bytes 00 61 and to the integer 97, below the prime, so it is encrypted as a single
  block; with the key pair that \<^verbatim>\<open>generateKeys\<close> returns and the ephemeral key that
  \<^verbatim>\<open>encrypt\<close> draws on the source \<open>rnd_one\<close>, \<^verbatim>\<open>decrypt\<close> returns the one character \<open>a\<close>.
  By \<open>elgamal_single_strips_zeros\<close> the same holds for every key pair and every
  randomness: the leading zero bytes of the message are lost.
\<close>

theorem elgamal_roundtrip_drops_leading_zero:
  "generateKeys rnd_one = Some (Inr ((pk_one, sk_one), rnd_one)) \<and>
   stringToBytes no_codec [0, 0x61] = [0, 0x61] \<and>
   textToBigInt no_codec [0, 0x61] < BIG_PRIME \<and>
   encrypt 1 no_codec [0, 0x61] pk_one rnd_one =
     Some (Inr (\<lparr>ciphertext = Pair 2 194, ephemeralKey = Some 1, isBlocked = False,
                  blockCount = None\<rparr>, rnd_one)) \<and>
   decrypt no_codec \<lparr>ciphertext = Pair 2 194, ephemeralKey = Some 1, isBlocked = False,
                      blockCount = None\<rparr> sk_one = Inr [0x61]"
proof -
  have b: "stringToBytes no_codec [0, 0x61] = [0, 0x61]" by code_simp
  have small: "textToBigInt no_codec [0, 0x61] < BIG_PRIME"
    unfolding text_zero_a_value BIG_PRIME_def by simp
  have "(194::int) smod BIG_PRIME = 194"
    unfolding BIG_PRIME_def by (simp add: smod_mod_positive)
  then have enc: "encrypt 1 no_codec [0, 0x61] pk_one rnd_one =
     Some (Inr (\<lparr>ciphertext = Pair 2 194, ephemeralKey = Some 1, isBlocked = False,
                  blockCount = None\<rparr>, rnd_one))"
    using encrypt_rnd_one [OF small, of 0] by (simp add: text_zero_a_value)
  have dec: "decrypt no_codec \<lparr>ciphertext = Pair 2 194, ephemeralKey = Some 1, isBlocked = False,
                      blockCount = None\<rparr> sk_one = Inr [0x61]"
    using elgamal_single_roundtrip [OF generateKeys_rnd_one small enc [unfolded One_nat_def]]
    by (simp add: text_zero_a_value text_a_decoded)
  show ?thesis using generateKeys_rnd_one b small enc dec by blast
qed

text \<open>
  Claim C2 fails for the same reason at a block edge. \<open>block_message\<close> has 308 bytes, twice
  the block size 154, and its integer is above the prime, so block mode is used. The second
  block begins with the byte 00, which its decryption drops: the text returned has 307
  characters.
\<close>

theorem elgamal_block_roundtrip_drops_zero:
  "length block_message = 308 \<and>
   BIG_PRIME \<le> textToBigInt no_codec block_message \<and>
   (\<exists>res. encrypt 2 no_codec block_message pk_one rnd_one = Some (Inr (res, rnd_one)) \<and>
          isBlocked res \<and> blockCount res = Some 2 \<and>
          decrypt no_codec res sk_one = Inr (replicate 307 0x61))"
proof -
  let ?bs = "replicate 154 0x61 @ 0 # replicate 153 (0x61::byte)"
  let ?b1 = "replicate 154 (0x61::byte)"
  let ?b2 = "0 # replicate 153 (0x61::byte)"
  let ?enc = "\<lambda>m. encrypt (Suc 0) no_codec m pk_one"
  have len: "length block_message = 308" by (simp add: block_message_def)
  have blocks: "split_loop ?bs 154 0 = [?b1, ?b2]"
    by (subst split_loop_two_blocks) simp_all
  have small: "\<forall>b \<in> set [?b1, ?b2]. textToBigInt no_codec (bytesToString no_codec b) < BIG_PRIME"
    by (simp add: no_codec_block_small)
  from encrypt_blocks_rnd_one [OF small, of 0 "[]"] obtain cs where
    cs: "encrypt_blocks ?enc no_codec [?b1, ?b2] [] rnd_one = Some (Inr (cs, rnd_one))"
    by blast
  let ?res = "\<lparr>ciphertext = Arr cs, ephemeralKey = None, isBlocked = True, blockCount = Some 2\<rparr>"
  have "encrypt 2 no_codec block_message pk_one rnd_one
          = blockEncrypt ?enc no_codec block_message pk_one rnd_one"
    using block_message_large
    by (simp add: numeral_2_eq_2 encrypt.simps pk_one_def Let_def)
  also have "\<dots> = Some (Inr (?res, rnd_one))"
    by (simp add: blockEncrypt_def pk_one_def toString_length_BIG_PRIME block_message_bytes
        blocks cs [unfolded pk_one_def] Let_def del: encrypt_blocks.simps)
  finally have enc: "encrypt 2 no_codec block_message pk_one rnd_one = Some (Inr (?res, rnd_one))" .
  from encrypt_blocks_roundtrip [OF generateKeys_rnd_one small cs] have
    "decrypt_blocks no_codec cs sk_one []
       = Inr (bytesToString no_codec (dropWhile (\<lambda>b. b = 0) ?b1)
              @ bytesToString no_codec (dropWhile (\<lambda>b. b = 0) ?b2))"
    by (auto simp: no_codec_block_text)
  also have "bytesToString no_codec (dropWhile (\<lambda>b. b = 0) ?b1) = replicate 154 0x61"
    by (simp add: bytesToString_def no_codec_def)
  also have "bytesToString no_codec (dropWhile (\<lambda>b. b = 0) ?b2) = replicate 153 0x61"
    by (simp add: bytesToString_def no_codec_def)
  also have "replicate 154 (0x61::16 word) @ replicate 153 0x61 = replicate 307 0x61"
    by (simp add: replicate_add [symmetric])
  finally have "decrypt no_codec ?res sk_one = Inr (replicate 307 0x61)"
    by (simp add: decrypt_def blockDecrypt_def)
  with enc len block_message_large show ?thesis by auto
qed

section \<open>ElGamal: what decryption can return\<close>








section \<open>The modular square root\<close>

lemma factor_loop_result:
  assumes "factor_loop q0 s0 = Some qs"
  shows "s0 \<le> snd qs \<and> q0 = fst qs * 2 ^ (snd qs - s0) \<and> fst qs smod 2 \<noteq> 0"
proof (rule factor_loop.raw_induct
    [where P = "\<lambda>q0 s0 qs. s0 \<le> snd qs \<and> q0 = fst qs * 2 ^ (snd qs - s0) \<and> fst qs smod 2 \<noteq> 0",
     OF _ assms])
  fix f :: "int \<Rightarrow> nat \<Rightarrow> (int \<times> nat) option" and q0 s0 qs
  assume ih: "\<And>q0 s0 qs. f q0 s0 = Some qs
      \<Longrightarrow> s0 \<le> snd qs \<and> q0 = fst qs * 2 ^ (snd qs - s0) \<and> fst qs smod 2 \<noteq> 0"
    and step: "(if q0 smod 2 = 0 then f (q0 sdiv 2) (s0 + 1) else Some (q0, s0)) = Some qs"
  show "s0 \<le> snd qs \<and> q0 = fst qs * 2 ^ (snd qs - s0) \<and> fst qs smod 2 \<noteq> 0"
  proof (cases "q0 smod 2 = 0")
    case True
    then have "f (q0 sdiv 2) (s0 + 1) = Some qs" using step by simp
    from ih [OF this] have a: "s0 + 1 \<le> snd qs"
      and b: "q0 sdiv 2 = fst qs * 2 ^ (snd qs - (s0 + 1))" and c: "fst qs smod 2 \<noteq> 0"
      by simp_all
    have "q0 = (q0 sdiv 2) * 2" using sdiv_mult_smod_eq [of q0 2] True by simp
    also have "\<dots> = fst qs * (2 ^ (snd qs - (s0 + 1)) * 2)" using b by simp
    also have "2 ^ (snd qs - (s0 + 1)) * (2::int) = 2 ^ Suc (snd qs - (s0 + 1))" by simp
    also have "Suc (snd qs - (s0 + 1)) = snd qs - s0" using a by simp
    finally show ?thesis using a c by simp
  next
    case False
    then show ?thesis using step by auto
  qed
qed

lemma find_nonresidue_lower:
  assumes "find_nonresidue z0 p = Some (Inr z)"
  shows "z0 \<le> z"
proof -
  have "case r of Inl e \<Rightarrow> True | Inr z \<Rightarrow> z0 \<le> z" if "find_nonresidue z0 p = Some r" for r
  proof (rule find_nonresidue.raw_induct
      [where P = "\<lambda>z0 p r. case r of Inl e \<Rightarrow> True | Inr z \<Rightarrow> z0 \<le> z", OF _ that])
    fix f :: "int \<Rightarrow> int \<Rightarrow> (error + int) option" and z0 p r
    assume ih: "\<And>z0 p r. f z0 p = Some r \<Longrightarrow> case r of Inl e \<Rightarrow> True | Inr z \<Rightarrow> z0 \<le> z"
      and step: "(case modPow z0 ((p - 1) sdiv 2) p of
                    Inl e \<Rightarrow> Some (Inl e)
                  | Inr v \<Rightarrow> if v = 1 then f (z0 + 1) p else Some (Inr z0)) = Some r"
    show "case r of Inl e \<Rightarrow> True | Inr z \<Rightarrow> z0 \<le> z"
    proof (cases "modPow z0 ((p - 1) sdiv 2) p")
      case (Inl e)
      then have "r = Inl e" using step by simp
      then show ?thesis by simp
    next
      case (Inr v)
      show ?thesis
      proof (cases "v = 1")
        case True
        then have "f (z0 + 1) p = Some r" using step Inr by simp
        from ih [OF this] show ?thesis by (auto split: sum.splits)
      next
        case False
        then show ?thesis using step Inr by auto
      qed
    qed
  qed
  from this [OF assms] show ?thesis by simp
qed

lemma square_loop_nonneg: "0 \<le> b \<Longrightarrow> 0 < p \<Longrightarrow> 0 \<le> square_loop k b p"
  by (induction k arbitrary: b) (simp_all add: smod_mod_positive)

lemma ts_loop_invariant:
  "0 < p \<Longrightarrow> 0 \<le> r \<Longrightarrow> 0 \<le> c \<Longrightarrow> 0 \<le> t \<Longrightarrow> (r * r) mod p = (t * n) mod p
    \<Longrightarrow> ts_loop r c t m p = Inr r' \<Longrightarrow> (r' * r') mod p = n mod p"
proof (induction r c t m p arbitrary: r' rule: ts_loop.induct)
  case (1 r c t m p)
  show ?case
  proof (cases "t = 1")
    case True
    then have "ts_loop r c t m p = Inr r" by (subst ts_loop.simps) simp
    with "1.prems" True show ?thesis by simp
  next
    case False
    then obtain i where i: "order_loop t 0 m p = Inr i"
      using "1.prems"(6) by (subst (asm) ts_loop.simps) (auto split: sum.splits)
    define b where "b = square_loop (m - i - 1) c p"
    define r2 where "r2 = (r * b) smod p"
    define c2 where "c2 = (b * b) smod p"
    define t2 where "t2 = (t * c2) smod p"
    have run: "ts_loop r2 c2 t2 i p = Inr r'"
      using "1.prems"(6) False i
      by (subst (asm) ts_loop.simps) (simp add: Let_def b_def r2_def c2_def t2_def)
    have p: "0 < p" by fact
    have b0: "0 \<le> b" unfolding b_def using "1.prems"(3) p by (rule square_loop_nonneg)
    have r2v: "r2 = (r * b) mod p" unfolding r2_def using "1.prems"(2) b0 p
      by (simp add: smod_mod_positive)
    have c2v: "c2 = (b * b) mod p" unfolding c2_def using b0 p by (simp add: smod_mod_positive)
    have c20: "0 \<le> c2" using c2v p by simp
    have t2v: "t2 = (t * c2) mod p" unfolding t2_def using "1.prems"(4) c20 p
      by (simp add: smod_mod_positive)
    have "(r2 * r2) mod p = ((r * b) * (r * b)) mod p"
      unfolding r2v by (simp only: mod_mult_eq)
    also have "(r * b) * (r * b) = (r * r) * (b * b)" by (simp add: algebra_simps)
    also have "((r * r) * (b * b)) mod p = ((r * r) mod p * (b * b)) mod p"
      by (simp only: mod_mult_left_eq)
    also have "\<dots> = ((t * n) mod p * (b * b)) mod p" using "1.prems"(5) by simp
    also have "\<dots> = ((t * n) * (b * b)) mod p" by (simp only: mod_mult_left_eq)
    also have "(t * n) * (b * b) = (t * (b * b)) * n" by (simp add: algebra_simps)
    also have "((t * (b * b)) * n) mod p = ((t * (b * b)) mod p * n) mod p"
      by (simp only: mod_mult_left_eq)
    also have "(t * (b * b)) mod p = (t * ((b * b) mod p)) mod p"
      by (simp only: mod_mult_right_eq)
    also have "((t * ((b * b) mod p)) mod p * n) mod p = (t2 * n) mod p"
      unfolding t2v c2v ..
    finally have inv: "(r2 * r2) mod p = (t2 * n) mod p" .
    have "0 \<le> r2" "0 \<le> t2" using r2v t2v p by simp_all
    from "1.IH" [OF False i b_def r2_def c2_def t2_def p this(1) c20 this(2) inv run]
    show ?thesis .
  qed
qed

lemma modSqrt_not_residue:
  assumes "0 < n" "n < p" "n ^ nat ((p - 1) div 2) mod p \<noteq> 1"
  shows "modSqrt n p = Some (Inl (NotQuadraticResidue n p))"
proof -
  have p2: "p \<noteq> 2"
  proof
    assume "p = 2"
    then have "n = 1" using assms(1,2) by simp
    then show False using assms(3) \<open>p = 2\<close> by simp
  qed
  then have p: "1 < p" "0 \<le> (p - 1) div 2" using assms(1,2) by simp_all
  have sd: "(p - 1) sdiv 2 = (p - 1) div 2"
    using p by (simp add: signed_divide_int_def sgn_if)
  have "modPow n ((p - 1) sdiv 2) p = Inr (n ^ nat ((p - 1) div 2) mod p)"
    unfolding sd using assms(1) p by (intro modPow_eq_power) simp_all
  then show ?thesis using assms p2 by (simp add: modSqrt_def)
qed

lemma modSqrt_square:
  assumes n: "0 \<le> n" "n < p" and res: "modSqrt n p = Some (Inr r)"
  shows "(r * r) mod p = n"
proof (cases "n = 0")
  case True
  then show ?thesis using res n by (simp add: modSqrt_def)
next
  case n0: False
  show ?thesis
  proof (cases "p = 2")
    case True
    then have "n = 1" using n n0 by simp
    then show ?thesis using res True by (simp add: modSqrt_def)
  next
    case p2: False
    then have p: "1 < p" "0 < p" "2 < p" using n n0 by simp_all
    have npos: "0 < n" using n n0 by simp
    have nm: "n mod p = n" using n by simp
    define e where "e = (p - 1) div 2"
    have e0: "0 \<le> e" using p by (simp add: e_def)
    have sd: "(p - 1) sdiv 2 = e"
      using p by (simp add: signed_divide_int_def sgn_if e_def)
    have leg: "modPow n ((p - 1) sdiv 2) p = Inr (n ^ nat e mod p)"
      unfolding sd using n p e0 by (intro modPow_eq_power) simp_all
    have euler: "n ^ nat e mod p = 1"
      using res n0 p2 leg by (auto simp: modSqrt_def split: if_splits)
    from res n0 p2 leg euler obtain q s where
      fl: "factor_loop (p - 1) 0 = Some (q, s)"
      by (auto simp: modSqrt_def split: option.splits)
    from factor_loop_result [OF fl] have pq: "p - 1 = q * 2 ^ s" and qodd: "q smod 2 \<noteq> 0"
      by simp_all
    have qpos: "0 < q"
    proof (rule ccontr)
      assume "\<not> 0 < q"
      then have "q * 2 ^ s \<le> 0" by (simp add: mult_le_0_iff)
      with pq p show False by simp
    qed
    have qm: "q mod 2 = 1" using qodd qpos by (simp add: smod_mod_positive)
    define h where "h = (q + 1) div 2"
    have h2: "q + 1 = 2 * h" unfolding h_def using qm by presburger
    have h0: "0 \<le> h" using qpos h2 by simp
    have nh: "nat (q + 1) = 2 * nat h" using h2 h0 by (simp add: nat_mult_distrib)
    have nq: "nat (q + 1) = Suc (nat q)" using qpos by (simp add: nat_add_distrib)
    have sq: "(n ^ nat h mod p * (n ^ nat h mod p)) mod p = (n ^ nat q mod p * n) mod p"
    proof -
      have "(n ^ nat h mod p * (n ^ nat h mod p)) mod p = (n ^ nat h * n ^ nat h) mod p"
        by (simp only: mod_mult_eq)
      also have "n ^ nat h * n ^ nat h = n ^ (2 * nat h)"
        by (simp add: power_add [symmetric] mult_2)
      also have "2 * nat h = Suc (nat q)" using nh nq by simp
      also have "n ^ Suc (nat q) = n ^ nat q * n" by simp
      also have "(n ^ nat q * n) mod p = (n ^ nat q mod p * n) mod p"
        by (simp only: mod_mult_left_eq)
      finally show ?thesis .
    qed
    show ?thesis
    proof (cases "s = 1")
      case True
      then have pq1: "p - 1 = q * 2" using pq by simp
      then have eq: "e = q" by (simp add: e_def)
      have "(p + 1) div 4 = h" using pq1 h2 by presburger
      then have sd4: "(p + 1) sdiv 4 = h"
        using p by (simp add: signed_divide_int_def sgn_if)
      have "modPow n ((p + 1) sdiv 4) p = Inr (n ^ nat h mod p)"
        unfolding sd4 using n p h0 by (intro modPow_eq_power) simp_all
      then have r: "r = n ^ nat h mod p"
        using res n0 p2 leg euler fl True by (simp add: modSqrt_def)
      have "(r * r) mod p = (n ^ nat q mod p * n) mod p" unfolding r by (rule sq)
      also have "\<dots> = n mod p" using euler eq by simp
      finally show ?thesis using nm by simp
    next
      case False
      from res n0 p2 leg euler fl False obtain z where
        z: "find_nonresidue 2 p = Some (Inr z)"
        by (auto simp: modSqrt_def split: option.splits sum.splits)
      have z0: "0 \<le> z" using find_nonresidue_lower [OF z] by simp
      have q0: "0 \<le> q" using qpos by simp
      have sdh: "(q + 1) sdiv 2 = h"
        using qpos by (simp add: signed_divide_int_def sgn_if h_def)
      have mc: "modPow z q p = Inr (z ^ nat q mod p)"
        using z0 p q0 by (intro modPow_eq_power) simp_all
      have mr: "modPow n ((q + 1) sdiv 2) p = Inr (n ^ nat h mod p)"
        unfolding sdh using n p h0 by (intro modPow_eq_power) simp_all
      have mt: "modPow n q p = Inr (n ^ nat q mod p)"
        using n p q0 by (intro modPow_eq_power) simp_all
      have run: "ts_loop (n ^ nat h mod p) (z ^ nat q mod p) (n ^ nat q mod p) s p = Inr r"
        using res n0 p2 leg euler fl False z mc mr mt by (simp add: modSqrt_def)
      have "(r * r) mod p = n mod p"
        using p(2) _ _ _ sq run
        by (rule ts_loop_invariant) (use p in simp_all)
      then show ?thesis using nm by simp
    qed
  qed
qed


text \<open>
  Claim C8 (the residue check of Tonelli-Shanks). For every \<open>n\<close> with \<open>0 < n < p\<close> that
  fails Euler's criterion, \<open>n ^ ((p - 1) / 2) mod p \<noteq> 1\<close>, \<^verbatim>\<open>modSqrt(n, p)\<close> throws the
  not-a-quadratic-residue error and returns no value. Whenever \<^verbatim>\<open>modSqrt(n, p)\<close> returns a
  value \<open>r\<close> for an \<open>n\<close> in \<open>[0, p)\<close>, \<open>r * r mod p = n\<close>.
\<close>

theorem modSqrt_residue_check:
  "(0 < n \<and> n < p \<and> n ^ nat ((p - 1) div 2) mod p \<noteq> 1
      \<longrightarrow> modSqrt n p = Some (Inl (NotQuadraticResidue n p))) \<and>
   (0 \<le> n \<and> n < p \<and> modSqrt n p = Some (Inr r) \<longrightarrow> (r * r) mod p = n)"
  using modSqrt_not_residue [of n p] modSqrt_square [of n p r] by blast

theorem modSqrt_residue_check_witness:
  "(0::int) < 3 \<and> (3::int) < 7 \<and> (3::int) ^ nat ((7 - 1) div 2) mod 7 \<noteq> 1 \<and>
   modSqrt 3 7 = Some (Inl (NotQuadraticResidue 3 7)) \<and>
   (0::int) \<le> 2 \<and> (2::int) < 17 \<and> modSqrt 2 17 = Some (Inr 6) \<and> (6 * 6) mod 17 = (2::int) \<and>
   modSqrt 2 7 = Some (Inr 4) \<and> (4 * 4) mod 7 = (2::int)"
proof -
  have a: "modSqrt 2 17 = Some (Inr 6)" by code_simp
  have b: "modSqrt 2 7 = Some (Inr 4)" by code_simp
  have c: "(3::int) ^ nat ((7 - 1) div 2) mod 7 \<noteq> 1" by simp
  show ?thesis
    using a b c modSqrt_residue_check [of 3 7 0] modSqrt_residue_check [of 2 17 6]
      modSqrt_residue_check [of 2 7 4]
    by simp
qed

section \<open>The Miller-Rabin test and its random bases\<close>

lemma binary_digits_upper: "n < 2 ^ binary_digits n"
proof (induction n rule: binary_digits.induct)
  case (1 n)
  show ?case
  proof (cases "n < 2")
    case True
    then show ?thesis by (subst binary_digits.simps) simp
  next
    case False
    from 1 [OF False] have "n div 2 < 2 ^ binary_digits (n div 2)" .
    then have "n < 2 * 2 ^ binary_digits (n div 2)" by linarith
    then show ?thesis using False by (subst binary_digits.simps) simp
  qed
qed

lemma top_bit_byte: "128 \<le> uint ((w::byte) OR 0x80)"
proof -
  have "(0x80::byte) \<le> w OR 0x80" by (rule le_word_or1)
  then have "uint (0x80::byte) \<le> uint (w OR 0x80)" by (simp only: word_le_def)
  then show ?thesis by simp
qed

lemma length_u8_or [simp]: "length (u8_or xs i v) = length xs"
  by (simp add: u8_or_def)

lemma rsa_generateRandomBigInt_lower:
  assumes "0 < bits"
  shows "2 ^ (8 * ((bits + 7) div 8) - 1) \<le> fst (rsa_generateRandomBigInt bits rnd)"
proof -
  define bytes where "bytes = (bits + 7) div 8"
  have b: "0 < bytes" using assms unfolding bytes_def by simp
  define rb where "rb = fst (getRandomBytes bytes rnd)"
  define xs where "xs = u8_or (u8_or rb (int bytes - 1) 1) 0 0x80"
  have lrb: "length rb = bytes" by (simp add: rb_def getRandomBytes_def)
  have l1: "length (u8_or rb (int bytes - 1) 1) = bytes" by (simp add: lrb)
  have lxs: "length xs = bytes" by (simp add: xs_def lrb)
  have x0: "xs ! 0 = (u8_or rb (int bytes - 1) 1 ! 0) OR 0x80"
    using b l1 unfolding xs_def by (subst u8_or_def) simp
  obtain h t where ht: "xs = h # t" using lxs b by (cases xs) auto
  then have h: "h = (u8_or rb (int bytes - 1) 1 ! 0) OR 0x80" using x0 by simp
  have lt: "length t = bytes - 1" using ht lxs by simp
  have "(128::int) * 256 ^ (bytes - 1) \<le> uint h * 256 ^ length t"
    unfolding lt h by (intro mult_right_mono top_bit_byte) simp
  also have "\<dots> \<le> bytesToBigInt xs"
    unfolding ht bytesToBigInt_Cons using bytesToBigInt_nonneg [of t] by simp
  finally have "(128::int) * 256 ^ (bytes - 1) \<le> bytesToBigInt xs" .
  moreover have "(128::int) * 256 ^ (bytes - 1) = 2 ^ (8 * bytes - 1)"
  proof -
    have "(256::int) ^ (bytes - 1) = 2 ^ (8 * (bytes - 1))"
      by (simp add: power_mult)
    moreover have "(128::int) = 2 ^ 7" by simp
    moreover have "7 + 8 * (bytes - 1) = 8 * bytes - 1" using b by simp
    ultimately show ?thesis by (simp only: power_add [symmetric])
  qed
  moreover have "fst (rsa_generateRandomBigInt bits rnd) = bytesToBigInt xs"
    by (simp add: rsa_generateRandomBigInt_def Let_def bytes_def [symmetric] rb_def xs_def)
  ultimately show ?thesis unfolding bytes_def by simp
qed

lemma randomBigIntInRange_loop_never_returns:
  assumes "0 < bits" "span \<le> 2 ^ (8 * ((bits + 7) div 8) - 1)"
  shows "randomBigIntInRange_loop minv span bits rnd = None"
proof (rule ccontr)
  assume "randomBigIntInRange_loop minv span bits rnd \<noteq> None"
  then obtain y where y: "randomBigIntInRange_loop minv span bits rnd = Some y" by auto
  have "\<not> (0 < bits \<and> span \<le> 2 ^ (8 * ((bits + 7) div 8) - 1))"
  proof (rule randomBigIntInRange_loop.raw_induct
      [where P = "\<lambda>minv span bits rnd y. \<not> (0 < bits \<and> span \<le> 2 ^ (8 * ((bits + 7) div 8) - 1))",
       OF _ y])
    fix f :: "int \<Rightarrow> int \<Rightarrow> nat \<Rightarrow> rnd \<Rightarrow> (int \<times> rnd) option" and minv span bits rnd y
    assume ih: "\<And>minv span bits rnd y. f minv span bits rnd = Some y
        \<Longrightarrow> \<not> (0 < bits \<and> span \<le> 2 ^ (8 * ((bits + 7) div 8) - 1))"
      and step: "(let value = fst (rsa_generateRandomBigInt bits rnd);
                      rnd' = snd (rsa_generateRandomBigInt bits rnd)
                  in if value < span then Some (minv + value, rnd')
                     else f minv span bits rnd') = Some y"
    show "\<not> (0 < bits \<and> span \<le> 2 ^ (8 * ((bits + 7) div 8) - 1))"
    proof
      assume a: "0 < bits \<and> span \<le> 2 ^ (8 * ((bits + 7) div 8) - 1)"
      then have "\<not> fst (rsa_generateRandomBigInt bits rnd) < span"
        using rsa_generateRandomBigInt_lower [of bits rnd] by simp
      then have "f minv span bits (snd (rsa_generateRandomBigInt bits rnd)) = Some y"
        using step by (simp add: Let_def)
      from ih [OF this] a show False by simp
    qed
  qed
  with assms show False by simp
qed

lemma randomBigIntInRange_never_returns:
  assumes "0 < span" "getBitLength span mod 8 \<noteq> 0" "span = maxv - minv + 1"
  shows "randomBigIntInRange minv maxv rnd = None"
proof -
  define bits where "bits = getBitLength span"
  have bd: "bits = binary_digits (nat span)" using assms(1) by (simp add: bits_def getBitLength_def)
  have b0: "0 < bits" unfolding bd by (subst binary_digits.simps) simp
  have "nat span < 2 ^ bits" unfolding bd by (rule binary_digits_upper)
  then have up: "span < 2 ^ bits" using assms(1) by (simp add: nat_less_iff)
  have "bits \<le> 8 * ((bits + 7) div 8) - 1" using assms(2) b0 unfolding bits_def [symmetric]
    by presburger
  then have pw: "(2::int) ^ bits \<le> 2 ^ (8 * ((bits + 7) div 8) - 1)"
    by (intro power_increasing) simp_all
  from up pw have "span < 2 ^ (8 * ((bits + 7) div 8) - 1)" by (rule less_le_trans)
  then have "span \<le> 2 ^ (8 * ((bits + 7) div 8) - 1)" by (rule less_imp_le)
  from randomBigIntInRange_loop_never_returns [OF b0 this] show ?thesis
    by (simp add: randomBigIntInRange_def Let_def assms(3) [symmetric] bits_def)
qed

lemma halve_loop_returns: "d \<noteq> 0 \<Longrightarrow> \<exists>d' r'. halve_loop d r = Some (d', r')"
proof (induction "nat \<bar>d\<bar>" arbitrary: d r rule: less_induct)
  case less
  show ?case
  proof (cases "d smod 2 = 0")
    case False
    then show ?thesis by (subst halve_loop.simps) simp
  next
    case True
    have d2: "d = (d sdiv 2) * 2" using sdiv_mult_smod_eq [of d 2] True by simp
    then have nz: "d sdiv 2 \<noteq> 0" using less.prems by auto
    have "\<bar>d\<bar> = \<bar>d sdiv 2\<bar> * 2" using d2 by (simp add: abs_mult)
    then have "nat \<bar>d sdiv 2\<bar> < nat \<bar>d\<bar>" using nz by linarith
    from less.hyps [OF this nz, of "r + 1"] show ?thesis
      using True by (subst halve_loop.simps) simp
  qed
qed

lemma millerRabinTest_never_returns:
  assumes "3 < n" "n smod 2 \<noteq> 0" "getBitLength (n - 3) mod 8 \<noteq> 0"
  shows "millerRabinTest n (Suc k) rnd = None"
proof -
  obtain d r where dr: "halve_loop (n - 1) 0 = Some (d, r)"
    using halve_loop_returns [of "n - 1" 0] assms(1) by auto
  have "randomBigIntInRange 2 (n - 2) rnd = None"
    using assms by (intro randomBigIntInRange_never_returns [of "n - 3"]) simp_all
  then show ?thesis using assms dr by (simp add: millerRabinTest_def)
qed

text \<open>
  Claim C7 fails on the code for the prime 97 (and for every odd \<open>n > 3\<close> such that the bit
  length of \<open>n - 3\<close> is not a multiple of 8, by \<open>millerRabinTest_never_returns\<close>): with one
  round or more the call never returns, whatever the random source gives.
  \<^verbatim>\<open>randomBigIntInRange(2, 95)\<close> draws candidates of 7 bits with \<^verbatim>\<open>generateRandomBigInt\<close>,
  which sets the top bit of the byte it draws, so every candidate is at least 128 and
  none is below the range 94.
\<close>

theorem millerRabinTest_97_never_returns: "millerRabinTest 97 (Suc k) rnd = None"
proof -
  have "getBitLength (97 - 3) = 7" by code_simp
  then show ?thesis
    by (intro millerRabinTest_never_returns) (simp_all add: signed_modulo_int_def)
qed

text \<open>The short-circuits of the test do not depend on the random source.\<close>

lemma millerRabinTest_short_circuits: "millerRabinTest 2 k rnd = Some (Inr (True, rnd))"
  "millerRabinTest 3 k rnd = Some (Inr (True, rnd))"
  "n \<le> 1 \<Longrightarrow> millerRabinTest n k rnd = Some (Inr (False, rnd))"
  "3 < n \<Longrightarrow> even n \<Longrightarrow> millerRabinTest n k rnd = Some (Inr (False, rnd))"
  by (auto simp: millerRabinTest_def signed_modulo_int_def sgn_if)

section \<open>OAEP\<close>

lemma length_simpleHashBytes [simp]: "length (simpleHashBytes x) = 32"
proof -
  have "length (hash_output st) = 32" for st
    by (cases st rule: hash_output.cases) (simp add: word_bytes_def)
  then show ?thesis by (simp add: simpleHashBytes_def)
qed

lemma mgf1_loop_returns:
  "length maskArr = maskLen \<Longrightarrow> pos \<le> maskLen
   \<Longrightarrow> \<exists>m. mgf1_loop seed maskLen counter pos maskArr = Inr m \<and> length m = maskLen"
proof (induction seed maskLen counter pos maskArr rule: mgf1_loop.induct)
  case (1 seed maskLen counter pos maskArr)
  show ?case
  proof (cases "pos < maskLen")
    case False
    then show ?thesis using "1.prems" by (subst mgf1_loop.simps) simp
  next
    case True
    define T where "T = seed @ counter_bytes counter"
    define hash where "hash = simpleHashBytes T"
    define len where "len = min (length hash) (maskLen - pos)"
    have len: "len \<le> maskLen - pos" "length (take len hash) = len"
      by (simp_all add: len_def hash_def)
    define m' where "m' = take pos maskArr @ take len hash @ drop (pos + len) maskArr"
    have set: "u8_set maskArr (take len hash) pos = Inr m'"
      using len "1.prems" True by (simp add: u8_set_def m'_def)
    have lm: "length m' = maskLen" using len "1.prems" True by (simp add: m'_def)
    have "pos + len \<le> maskLen" using len True by simp
    from "1.IH" [OF True T_def hash_def len_def lm this]
    obtain m where m: "mgf1_loop seed maskLen (counter + 1) (pos + len) m' = Inr m"
      "length m = maskLen" by blast
    have unf: "mgf1_loop seed maskLen counter pos maskArr =
        bindE (u8_set maskArr (take len hash) pos)
          (\<lambda>maskArr'. mgf1_loop seed maskLen (counter + 1) (pos + len) maskArr')"
      using True by (subst mgf1_loop.simps) (simp only: Let_def T_def hash_def len_def if_True)
    show ?thesis unfolding unf using set m by (simp add: bindE_def)
  qed
qed

lemma mgf1_returns: "\<exists>m. mgf1 seed n = Inr m \<and> length m = n"
  unfolding mgf1_def by (rule mgf1_loop_returns) (simp_all add: u8_new_def)

lemma length_xor_loop [simp]: "length (xor_loop n a b) = n"
  by (simp add: xor_loop_def)

lemma xor_loop_cancel:
  assumes "length a = n" "length b = n"
  shows "xor_loop n (xor_loop n a b) b = a"
proof (rule nth_equalityI)
  show "length (xor_loop n (xor_loop n a b) b) = length a" using assms by simp
next
  fix i assume "i < length (xor_loop n (xor_loop n a b) b)"
  then have i: "i < n" by simp
  then show "xor_loop n (xor_loop n a b) b ! i = a ! i"
    using assms by (simp add: xor_loop_def u8_at_def u8_xor_def xor.assoc)
qed

lemma length_lHash: "length (hexToBytes LABEL_HASH) = 32"
  by code_simp

lemma scan_zeros_run:
  "scan_zeros (pre @ replicate z 0 @ 1 # rest) (length pre + j) = length pre + z" if "j \<le> z"
  using that
proof (induction "z - j" arbitrary: j)
  case 0
  then have j: "j = z" by simp
  have "(pre @ replicate z 0 @ 1 # rest) ! (length pre + z) = (1::byte)"
    by (simp add: nth_append)
  then show ?case unfolding j by (subst scan_zeros.simps) simp
next
  case (Suc d)
  then have j: "j < z" by simp
  have "(pre @ replicate z 0 @ 1 # rest) ! (length pre + j) = (0::byte)"
    using j by (simp add: nth_append)
  moreover have "scan_zeros (pre @ replicate z 0 @ 1 # rest) (length pre + (j + 1)) = length pre + z"
    using Suc j by (intro Suc.hyps) simp_all
  ultimately show ?case using j by (subst scan_zeros.simps) (simp add: add.assoc)
qed

text \<open>
  The data block that \<^verbatim>\<open>oaep_encode\<close> builds is \<open>lHash || 00 .. 00 || 01 || M\<close>, and the encoded
  message is \<open>00 || maskedSeed || maskedDB\<close>.
\<close>

lemma oaep_db_layout:
  assumes l: "length lHash = 32"
  shows "bindE (u8_set (u8_new (32 + z + 1 + length M)) lHash 0) (\<lambda>db.
           bindE (u8_set (u8_put db (32 + z) 0x01) M (32 + z + 1)) f)
         = f (lHash @ replicate z 0 @ 1 # M)"
proof -
  have 1: "u8_set (u8_new (32 + z + 1 + length M)) lHash 0 = Inr (lHash @ replicate (z + 1 + length M) 0)"
    using l by (simp add: u8_set_def u8_new_def)
  have r: "replicate (z + 1 + length M) (0::byte) = replicate z 0 @ 0 # replicate (length M) 0"
    by (simp add: replicate_add replicate_app_Cons_same)
  have 2: "u8_put (lHash @ replicate (z + 1 + length M) 0) (32 + z) 0x01
             = lHash @ replicate z 0 @ 1 # replicate (length M) 0"
    unfolding r using l by (simp add: u8_put_def list_update_append)
  have 3: "u8_set (lHash @ replicate z 0 @ 1 # replicate (length M) 0) M (32 + z + 1)
             = Inr (lHash @ replicate z 0 @ 1 # M)"
    using l by (simp add: u8_set_def)
  show ?thesis by (simp only: 1 2 3 bindE_def sum.case)
qed

lemma oaep_em_layout:
  assumes "length maskedSeed = 32" "length maskedDB = n"
  shows "bindE (u8_set (u8_put (u8_new (33 + n)) 0 0x00) maskedSeed 1) (\<lambda>em.
           bindE (u8_set em maskedDB (32 + 1)) f)
         = f (0 # maskedSeed @ maskedDB)"
proof -
  have 0: "u8_put (u8_new (33 + n)) 0 0x00 = replicate (33 + n) 0"
    by (simp add: u8_put_def u8_new_def list_eq_iff_nth_eq nth_list_update)
  have "replicate (33 + n) (0::byte) = replicate (Suc (32 + n)) 0"
    by (rule arg_cong [where f = "\<lambda>m. replicate m 0"]) simp
  then have r: "replicate (33 + n) (0::byte) = 0 # replicate 32 0 @ replicate n 0"
    by (simp only: replicate_Suc replicate_add)
  have 1: "u8_set (replicate (33 + n) 0) maskedSeed 1 = Inr (0 # maskedSeed @ replicate n 0)"
    unfolding r using assms by (simp add: u8_set_def)
  have 2: "u8_set (0 # maskedSeed @ replicate n 0) maskedDB (32 + 1) = Inr (0 # maskedSeed @ maskedDB)"
    using assms by (simp add: u8_set_def)
  show ?thesis by (simp only: 0 1 2 bindE_def sum.case)
qed


lemma oaep_encode_result:
  assumes len: "int (length M) \<le> k - 2 * int HASH_LENGTH - 2"
    and dbMask: "mgf1 (map rnd [0..<32]) (nat k - 33) = Inr dbMask"
    and seedMask: "mgf1 (xor_loop (nat k - 33)
       (hexToBytes LABEL_HASH @ replicate (nat k - length M - 66) 0 @ 1 # M) dbMask) 32 = Inr seedMask"
  shows "oaep_encode M k rnd =
       Inr (0 # xor_loop 32 (map rnd [0..<32]) seedMask @
              xor_loop (nat k - 33)
                (hexToBytes LABEL_HASH @ replicate (nat k - length M - 66) 0 @ 1 # M) dbMask,
            \<lambda>i. rnd (i + 32))"
proof -
  define n where "n = nat k"
  define z where "z = n - length M - 66"
  define lHash where "lHash = hexToBytes LABEL_HASH"
  define db where "db = lHash @ replicate z 0 @ 1 # M"
  define seed where "seed = map rnd [0..<32]"
  have n: "n = 32 + z + 1 + length M + 33" "k = int n"
    using len by (simp_all add: n_def z_def HASH_LENGTH_def)
  have l: "length lHash = 32" unfolding lHash_def by (rule length_lHash)
  define maskedDB where "maskedDB = xor_loop (n - 33) db dbMask"
  define maskedSeed where "maskedSeed = xor_loop 32 seed seedMask"
  have sizes: "nat (k - int HASH_LENGTH - 1) = 32 + z + 1 + length M"
    "nat (k - int (length M) - int HASH_LENGTH - 2) = 32 + z"
    "nat (k - int (length M) - int HASH_LENGTH - 1) = 32 + z + 1"
    "nat k = 33 + (32 + z + 1 + length M)"
    using n by (simp_all add: HASH_LENGTH_def)
  have n33: "n - 33 = 32 + z + 1 + length M" using n by simp
  have dbMask': "mgf1 seed (32 + z + 1 + length M) = Inr dbMask"
    using dbMask unfolding seed_def n_def [symmetric] n33 .
  have seedMask': "mgf1 maskedDB 32 = Inr seedMask"
    using seedMask unfolding maskedDB_def db_def lHash_def z_def n_def .
  have lms: "length maskedSeed = 32" by (simp add: maskedSeed_def)
  have lmd: "length maskedDB = 32 + z + 1 + length M" by (simp add: maskedDB_def n33)
  have nlt: "\<not> int (length M) > k - 2 * int HASH_LENGTH - 2" using len by simp
  have "oaep_encode M k rnd = Inr (0 # maskedSeed @ maskedDB, \<lambda>i. rnd (i + 32))"
    unfolding oaep_encode_def Let_def sizes
    apply (simp only: nlt if_False lHash_def [symmetric] oaep_db_layout [OF l])
    apply (simp only: HASH_LENGTH_def getRandomBytes_def fst_conv snd_conv seed_def [symmetric]
        db_def [symmetric] dbMask' bindE_def sum.case maskedDB_def [symmetric, unfolded n33]
        seedMask' maskedSeed_def [symmetric])
    apply (simp only: bindE_def [symmetric] oaep_em_layout [OF lms lmd])
    done
  then show ?thesis
    unfolding maskedSeed_def maskedDB_def db_def lHash_def z_def n_def seed_def .
qed

lemma oaep_decode_result:
  assumes len: "int (length M) \<le> k - 2 * int HASH_LENGTH - 2"
    and dbMask: "mgf1 (map rnd [0..<32]) (nat k - 33) = Inr dbMask" "length dbMask = nat k - 33"
    and seedMask: "mgf1 (xor_loop (nat k - 33)
       (hexToBytes LABEL_HASH @ replicate (nat k - length M - 66) 0 @ 1 # M) dbMask) 32 = Inr seedMask"
       "length seedMask = 32"
  shows "oaep_decode (0 # xor_loop 32 (map rnd [0..<32]) seedMask @
              xor_loop (nat k - 33)
                (hexToBytes LABEL_HASH @ replicate (nat k - length M - 66) 0 @ 1 # M) dbMask) k
         = Inr M"
proof -
  define n where "n = nat k"
  define z where "z = n - length M - 66"
  define lHash where "lHash = hexToBytes LABEL_HASH"
  define db where "db = lHash @ replicate z 0 @ 1 # M"
  define seed where "seed = map rnd [0..<32]"
  have n: "n = 32 + z + 1 + length M + 33" "k = int n"
    using len by (simp_all add: n_def z_def HASH_LENGTH_def)
  have l: "length lHash = 32" unfolding lHash_def by (rule length_lHash)
  define maskedDB where "maskedDB = xor_loop (n - 33) db dbMask"
  define maskedSeed where "maskedSeed = xor_loop 32 seed seedMask"
  define em where "em = 0 # maskedSeed @ maskedDB"
  have n33: "nat (k - int HASH_LENGTH - 1) = n - 33" using n by (simp add: HASH_LENGTH_def)
  have ldb: "length db = n - 33" using n l by (simp add: db_def)
  have lseed: "length seed = 32" by (simp add: seed_def)
  have dbMask': "mgf1 seed (n - 33) = Inr dbMask"
    using dbMask(1) unfolding seed_def n_def .
  have seedMask': "mgf1 maskedDB 32 = Inr seedMask"
    using seedMask(1) unfolding maskedDB_def db_def lHash_def z_def n_def .
  have lms: "length maskedSeed = 32" by (simp add: maskedSeed_def)
  have a: "\<not> k < 2 * int HASH_LENGTH + 2" using len by simp
  have b: "\<not> u8_at em 0 \<noteq> Some 0x00" by (simp add: em_def u8_at_def)
  have c: "take HASH_LENGTH (drop 1 em) = maskedSeed" using lms by (simp add: em_def HASH_LENGTH_def)
  have d: "drop (HASH_LENGTH + 1) em = maskedDB" using lms by (simp add: em_def HASH_LENGTH_def)
  have e: "xor_loop 32 maskedSeed seedMask = seed"
    unfolding maskedSeed_def using lseed seedMask(2) by (rule xor_loop_cancel)
  have f: "xor_loop (n - 33) maskedDB dbMask = db"
    unfolding maskedDB_def using ldb dbMask(2) [folded n_def] by (rule xor_loop_cancel)
  have g: "\<not> list_ex (\<lambda>i. u8_at db i \<noteq> u8_at lHash i) [0..<32]"
    using l by (auto simp: list_ex_iff u8_at_def db_def nth_append)
  have h: "scan_zeros db 32 = 32 + z"
    using scan_zeros_run [of 0 z lHash M] l by (simp add: db_def)
  have i: "\<not> (32 + z = length db \<or> u8_at db (32 + z) \<noteq> Some 0x01)"
    using l by (simp add: db_def u8_at_def nth_append)
  have j: "drop (32 + z + 1) db = M" using l by (simp add: db_def)
  have "oaep_decode em k = Inr M"
    unfolding oaep_decode_def Let_def
    apply (simp only: a b c d if_False n33)
    apply (simp only: HASH_LENGTH_def seedMask' bindE_def sum.case e dbMask' f)
    apply (simp only: g h i j lHash_def [symmetric] if_False)
    done
  then show ?thesis
    unfolding em_def maskedSeed_def maskedDB_def db_def lHash_def z_def n_def seed_def .
qed

text \<open>
  Claim C3 (OAEP round trip). For every message \<open>M\<close> of at most \<open>k - 2 * hLen - 2\<close> bytes (so
  \<open>k \<ge> 2 * hLen + 2\<close>; the empty message included) and every random source,
  \<^verbatim>\<open>oaep_encode(M, k)\<close> returns an encoded message of \<open>k\<close> bytes, and \<^verbatim>\<open>oaep_decode\<close> of it
  with the same \<open>k\<close> returns \<open>M\<close>.
\<close>

theorem oaep_roundtrip:
  assumes "int (length M) \<le> k - 2 * int HASH_LENGTH - 2"
  shows "\<exists>em rnd'. oaep_encode M k rnd = Inr (em, rnd') \<and> int (length em) = k \<and>
           oaep_decode em k = Inr M"
proof -
  obtain dbMask where dbMask: "mgf1 (map rnd [0..<32]) (nat k - 33) = Inr dbMask"
    "length dbMask = nat k - 33"
    using mgf1_returns by blast
  obtain seedMask where seedMask: "mgf1 (xor_loop (nat k - 33)
       (hexToBytes LABEL_HASH @ replicate (nat k - length M - 66) 0 @ 1 # M) dbMask) 32 = Inr seedMask"
    "length seedMask = 32"
    using mgf1_returns by blast
  let ?em = "0 # xor_loop 32 (map rnd [0..<32]) seedMask @
              xor_loop (nat k - 33)
                (hexToBytes LABEL_HASH @ replicate (nat k - length M - 66) 0 @ 1 # M) dbMask"
  have "oaep_encode M k rnd = Inr (?em, \<lambda>i. rnd (i + 32))"
    using assms dbMask(1) seedMask(1) by (rule oaep_encode_result)
  moreover have "oaep_decode ?em k = Inr M"
    using assms dbMask seedMask by (rule oaep_decode_result)
  moreover have "int (length ?em) = k"
    using assms by (simp add: HASH_LENGTH_def)
  ultimately show ?thesis by blast
qed

theorem oaep_roundtrip_witness:
  "int (length [0x68, 0x69 :: byte]) \<le> 70 - 2 * int HASH_LENGTH - 2 \<and>
   (\<exists>em rnd'. oaep_encode [0x68, 0x69] 70 (\<lambda>i. of_nat i) = Inr (em, rnd') \<and>
      int (length em) = 70 \<and> oaep_decode em 70 = Inr [0x68, 0x69])"
  using oaep_roundtrip [of "[0x68, 0x69]" 70 "\<lambda>i. of_nat i"] by (simp add: HASH_LENGTH_def)

section \<open>RSA: the message-length guard\<close>

lemma oaep_encode_returns:
  assumes "int (length M) \<le> k - 2 * int HASH_LENGTH - 2"
  shows "\<exists>em rnd'. oaep_encode M k rnd = Inr (em, rnd')"
proof -
  obtain dbMask where dbMask: "mgf1 (map rnd [0..<32]) (nat k - 33) = Inr dbMask"
    using mgf1_returns by blast
  obtain seedMask where seedMask: "mgf1 (xor_loop (nat k - 33)
       (hexToBytes LABEL_HASH @ replicate (nat k - length M - 66) 0 @ 1 # M) dbMask) 32 = Inr seedMask"
    using mgf1_returns by blast
  show ?thesis
    using oaep_encode_result [OF assms dbMask seedMask] by blast
qed

lemma length_rsa_fill: "length (rsa_fill i val bytes) = length bytes"
  by (induction i arbitrary: val bytes) (simp_all add: u8_put_def)

lemma length_rsa_bigIntToBytes [simp]: "length (rsa_bigIntToBytes val len) = len"
  by (simp add: rsa_bigIntToBytes_def length_rsa_fill u8_new_def)

lemma getBitLength_0: "getBitLength 0 = 1"
  by code_simp

lemma modExp_returns: "n \<noteq> 0 \<Longrightarrow> \<exists>c. modExp a e n = Inr c"
  by (simp add: modExp_def)

text \<open>
  Claim C9, amended. With \<^verbatim>\<open>TextEncoder\<close> present and a key that parses as a public key,
  the length check in the \<^verbatim>\<open>try\<close> block of \<^verbatim>\<open>encrypt\<close> throws its message-too-long error
  exactly when the encoded message has more than \<open>keyLenBytes - 2 * hLen - 2\<close> bytes, where
  \<open>keyLenBytes = ceil (bitLength n / 8)\<close>; the \<^verbatim>\<open>catch\<close> clause turns that error into the
  general encryption failure, so \<^verbatim>\<open>encrypt\<close> never fails with a message-too-long error of
  its own. A message at or below the bound is not rejected: \<^verbatim>\<open>encrypt\<close> returns a ciphertext
  of \<open>keyLenBytes\<close> bytes.
\<close>

theorem rsa_encrypt_length_guard:
  assumes "TextEncoder env = Some encode"
  shows "(rsa_encrypt_try env message (PublicKeyPEM n e) rnd = Inl MessageTooLong \<longleftrightarrow>
            int (length (encode message)) > int ((getBitLength n + 7) div 8) - 2 * int HASH_LENGTH - 2) \<and>
         (int (length (encode message)) > int ((getBitLength n + 7) div 8) - 2 * int HASH_LENGTH - 2 \<longrightarrow>
            rsa_encrypt env message (PublicKeyPEM n e) rnd = Inl RSAEncryptFailed) \<and>
         (int (length (encode message)) \<le> int ((getBitLength n + 7) div 8) - 2 * int HASH_LENGTH - 2 \<longrightarrow>
            (\<exists>c rnd'. rsa_encrypt env message (PublicKeyPEM n e) rnd = Inr (c, rnd') \<and>
               length c = (getBitLength n + 7) div 8)) \<and>
         rsa_encrypt env message publicKey rnd \<noteq> Inl MessageTooLong"
proof -
  let ?k = "(getBitLength n + 7) div 8"
  let ?bound = "int ?k - 2 * int HASH_LENGTH - 2"
  let ?bytes = "encode message"
  have long: "rsa_encrypt_try env message (PublicKeyPEM n e) rnd = Inl MessageTooLong"
    if "int (length ?bytes) > ?bound"
    using that assms
    by (simp add: rsa_encrypt_try_def extractPublicKeyComponents_def bindE_def Let_def)
  have short: "\<exists>c rnd'. rsa_encrypt_try env message (PublicKeyPEM n e) rnd = Inr (c, rnd') \<and> length c = ?k"
    if le: "int (length ?bytes) \<le> ?bound"
  proof -
    obtain em rnd' where em: "oaep_encode ?bytes (int ?k) rnd = Inr (em, rnd')"
      using oaep_encode_returns [OF le] by blast
    have "n \<noteq> 0"
    proof
      assume "n = 0"
      then have "?k = 1" by (simp add: getBitLength_0)
      then show False using le by (simp add: HASH_LENGTH_def)
    qed
    then obtain c where c: "modExp (bytesToBigInt em) e n = Inr c"
      using modExp_returns by blast
    have "rsa_encrypt_try env message (PublicKeyPEM n e) rnd = Inr (rsa_bigIntToBytes c ?k, rnd')"
      using le assms em c
      by (simp add: rsa_encrypt_try_def extractPublicKeyComponents_def bindE_def Let_def)
    then show ?thesis by simp
  qed
  have A: "rsa_encrypt_try env message (PublicKeyPEM n e) rnd = Inl MessageTooLong \<longleftrightarrow>
            int (length ?bytes) > ?bound"
  proof
    assume l: "rsa_encrypt_try env message (PublicKeyPEM n e) rnd = Inl MessageTooLong"
    show "int (length ?bytes) > ?bound"
    proof (rule ccontr)
      assume "\<not> int (length ?bytes) > ?bound"
      then have "int (length ?bytes) \<le> ?bound" by simp
      from short [OF this] l show False by auto
    qed
  qed (rule long)
  have B: "int (length ?bytes) > ?bound \<longrightarrow>
            rsa_encrypt env message (PublicKeyPEM n e) rnd = Inl RSAEncryptFailed"
    using long by (simp add: rsa_encrypt_def)
  have C: "int (length ?bytes) \<le> ?bound \<longrightarrow>
            (\<exists>c rnd'. rsa_encrypt env message (PublicKeyPEM n e) rnd = Inr (c, rnd') \<and> length c = ?k)"
    using short by (auto simp: rsa_encrypt_def)
  have D: "rsa_encrypt env message publicKey rnd \<noteq> Inl MessageTooLong"
    by (simp add: rsa_encrypt_def split: sum.splits)
  show ?thesis using A B C D by blast
qed

lemma getBitLength_wide_modulus: "getBitLength wide_modulus = 2048"
proof -
  have a: "2 ^ 2047 \<le> nat (2 ^ 2048 - 1)" by simp
  have b: "nat (2 ^ 2048 - 1) < 2 ^ Suc 2047" by simp
  show ?thesis
    using binary_digits_bound [OF a b] by (simp add: getBitLength_def wide_modulus_def)
qed

lemma utf16_scalars_ascii: "utf16_scalars (replicate n 0x61) = replicate n 0x61"
proof (induction n)
  case 0
  show ?case by simp
next
  case (Suc n)
  then show ?case by (cases n) simp_all
qed

lemma host_encode_ascii: "host_encode (replicate n 0x61) = replicate n 0x61"
proof -
  have "concat (map utf8_bytes (replicate n 0x61)) = replicate n 0x61" for n
    by (induction n) (simp_all add: utf8_bytes_def)
  then show ?thesis by (simp add: host_encode_def utf16_scalars_ascii)
qed

text \<open>
  Claim C9 as it stands fails: a message of 191 bytes under a modulus of 2048 bits
  (\<open>keyLenBytes = 256\<close>, bound 190) is rejected, but with the error that \<^verbatim>\<open>encrypt\<close> raises for
  every failure, the same as for a key that does not parse; no message-too-long error
  reaches the caller.
\<close>

theorem rsa_encrypt_too_long_counterexample:
  "int (length (host_encode (replicate 191 0x61))) >
     int ((getBitLength wide_modulus + 7) div 8) - 2 * int HASH_LENGTH - 2 \<and>
   rsa_encrypt host_platform (replicate 191 0x61) (PublicKeyPEM wide_modulus 65537) rnd_one
     = Inl RSAEncryptFailed \<and>
   rsa_encrypt host_platform (replicate 191 0x61) NotAKey rnd_one = Inl RSAEncryptFailed \<and>
   RSAEncryptFailed \<noteq> MessageTooLong"
  by (simp add: rsa_encrypt_def rsa_encrypt_try_def extractPublicKeyComponents_def bindE_def
      host_platform_def host_encode_ascii getBitLength_wide_modulus HASH_LENGTH_def)

theorem rsa_encrypt_length_guard_witness:
  "TextEncoder host_platform = Some host_encode \<and>
   int (length (host_encode (replicate 191 0x61))) >
     int ((getBitLength wide_modulus + 7) div 8) - 2 * int HASH_LENGTH - 2 \<and>
   rsa_encrypt_try host_platform (replicate 191 0x61) (PublicKeyPEM wide_modulus 65537) rnd_one
     = Inl MessageTooLong \<and>
   rsa_encrypt host_platform (replicate 191 0x61) (PublicKeyPEM wide_modulus 65537) rnd_one
     = Inl RSAEncryptFailed \<and>
   int (length (host_encode (replicate 190 0x61))) \<le>
     int ((getBitLength wide_modulus + 7) div 8) - 2 * int HASH_LENGTH - 2 \<and>
   (\<exists>c rnd'. rsa_encrypt host_platform (replicate 190 0x61) (PublicKeyPEM wide_modulus 65537) rnd_one
              = Inr (c, rnd') \<and> length c = 256)"
proof -
  have e: "TextEncoder host_platform = Some host_encode" by (simp add: host_platform_def)
  have l: "int (length (host_encode (replicate 191 0x61))) >
     int ((getBitLength wide_modulus + 7) div 8) - 2 * int HASH_LENGTH - 2"
    by (simp add: host_encode_ascii getBitLength_wide_modulus HASH_LENGTH_def)
  have s: "int (length (host_encode (replicate 190 0x61))) \<le>
     int ((getBitLength wide_modulus + 7) div 8) - 2 * int HASH_LENGTH - 2"
    by (simp add: host_encode_ascii getBitLength_wide_modulus HASH_LENGTH_def)
  have k: "(getBitLength wide_modulus + 7) div 8 = 256" by (simp add: getBitLength_wide_modulus)
  show ?thesis
    using rsa_encrypt_length_guard [OF e, of "replicate 191 0x61" wide_modulus 65537 rnd_one]
      rsa_encrypt_length_guard [OF e, of "replicate 190 0x61" wide_modulus 65537 rnd_one]
      e l s unfolding k by blast
qed

end
